theory Spec2Isabelle
  imports Main "HOL-Library.Word"
begin

unbundle bit_operations_syntax

section \<open>The keyblock data model of g10/keyedit.c\<close>

text \<open>
  A keyblock is the singly linked list of \<^verbatim>\<open>KBNODE\<close>s that the key editor walks with
  \<^verbatim>\<open>node = node->next\<close>; it is modelled as the list of its nodes in link order, the
  \<^verbatim>\<open>NULL\<close> pointer being the empty list. A node carries its packet, the flag word
  \<^verbatim>\<open>node->flag\<close> (a C \<^verbatim>\<open>unsigned\<close>) and the tombstone that
  \<^verbatim>\<open>delete_kbnode\<close> sets. Only the packet fields that keyedit.c reads or writes
  are kept.
\<close>

type_synonym u32 = "32 word"
type_synonym byte = "8 word"

text \<open>A key id is the array \<^verbatim>\<open>u32 keyid[2]\<close>.\<close>

type_synonym keyid = "u32 \<times> u32"

record STRING2KEY =
  s2k_mode :: nat
  s2k_hash_algo :: nat

record PKT_public_key =
  keyid_from_pk :: keyid
  local_id :: nat

record PKT_secret_key =
  keyid_from_sk :: keyid
  sk_algo_supported :: bool
  is_protected :: bool
  protect_algo :: nat
  protect_s2k :: STRING2KEY

text \<open>\<^verbatim>\<open>uid->name\<close> with \<^verbatim>\<open>uid->len\<close> bytes: the length is the length of the list.\<close>

record PKT_user_id =
  name :: string

record PKT_signature =
  sig_keyid :: keyid
  sig_class :: byte
  sig_timestamp :: u32

datatype PACKET =
    PublicKey PKT_public_key
  | PublicSubkey PKT_public_key
  | SecretKey PKT_secret_key
  | SecretSubkey PKT_secret_key
  | UserId PKT_user_id
  | Signature PKT_signature

datatype pkttype_t =
    PKT_PUBLIC_KEY
  | PKT_PUBLIC_SUBKEY
  | PKT_SECRET_KEY
  | PKT_SECRET_SUBKEY
  | PKT_USER_ID
  | PKT_SIGNATURE

fun pkttype :: "PACKET \<Rightarrow> pkttype_t" where
  "pkttype (PublicKey _) = PKT_PUBLIC_KEY"
| "pkttype (PublicSubkey _) = PKT_PUBLIC_SUBKEY"
| "pkttype (SecretKey _) = PKT_SECRET_KEY"
| "pkttype (SecretSubkey _) = PKT_SECRET_SUBKEY"
| "pkttype (UserId _) = PKT_USER_ID"
| "pkttype (Signature _) = PKT_SIGNATURE"

record kbnode =
  pkt :: PACKET
  flag :: u32
  deleted :: bool

type_synonym KBNODE = "kbnode list"

text \<open>The flag bits, as keyedit.c defines them.\<close>

definition NODFLG_BADSIG :: u32 where "NODFLG_BADSIG = push_bit 0 1"
definition NODFLG_NOKEY :: u32 where "NODFLG_NOKEY = push_bit 1 1"
definition NODFLG_SIGERR :: u32 where "NODFLG_SIGERR = push_bit 2 1"
definition NODFLG_MARK_A :: u32 where "NODFLG_MARK_A = push_bit 4 1"
definition NODFLG_SELUID :: u32 where "NODFLG_SELUID = push_bit 8 1"
definition NODFLG_SELKEY :: u32 where "NODFLG_SELKEY = push_bit 9 1"

text \<open>\<^verbatim>\<open>node->flag & f\<close> used as a truth value.\<close>

definition has_flag :: "kbnode \<Rightarrow> u32 \<Rightarrow> bool" where
  "has_flag n f = (flag n AND f \<noteq> 0)"

text \<open>\<^verbatim>\<open>node->flag |= f\<close> and \<^verbatim>\<open>node->flag &= ~f\<close>.\<close>

definition set_flag :: "u32 \<Rightarrow> kbnode \<Rightarrow> kbnode" where
  "set_flag f n = n\<lparr>flag := flag n OR f\<rparr>"

definition clear_flag :: "u32 \<Rightarrow> kbnode \<Rightarrow> kbnode" where
  "clear_flag f n = n\<lparr>flag := flag n AND NOT f\<rparr>"

definition is_uid :: "kbnode \<Rightarrow> bool" where
  "is_uid n = (pkttype (pkt n) = PKT_USER_ID)"

subsection \<open>The counters\<close>

fun count_uids_with_flag :: "KBNODE \<Rightarrow> u32 \<Rightarrow> int" where
  "count_uids_with_flag [] f = 0"
| "count_uids_with_flag (node # keyblock) f =
     (if pkttype (pkt node) = PKT_USER_ID \<and> has_flag node f
      then 1 + count_uids_with_flag keyblock f
      else count_uids_with_flag keyblock f)"

fun count_keys_with_flag :: "KBNODE \<Rightarrow> u32 \<Rightarrow> int" where
  "count_keys_with_flag [] f = 0"
| "count_keys_with_flag (node # keyblock) f =
     (if (pkttype (pkt node) = PKT_PUBLIC_SUBKEY \<or> pkttype (pkt node) = PKT_SECRET_SUBKEY)
         \<and> has_flag node f
      then 1 + count_keys_with_flag keyblock f
      else count_keys_with_flag keyblock f)"

fun count_uids :: "KBNODE \<Rightarrow> int" where
  "count_uids [] = 0"
| "count_uids (node # keyblock) =
     (if pkttype (pkt node) = PKT_USER_ID then 1 + count_uids keyblock
      else count_uids keyblock)"

definition count_selected_uids :: "KBNODE \<Rightarrow> int" where
  "count_selected_uids keyblock = count_uids_with_flag keyblock NODFLG_SELUID"

definition count_selected_keys :: "KBNODE \<Rightarrow> int" where
  "count_selected_keys keyblock = count_keys_with_flag keyblock NODFLG_SELKEY"

subsection \<open>Messages printed on the terminal\<close>

datatype message =
    No_user_id_with_index int
  | No_secondary_key_with_index int
  | Must_select_at_least_one_uid
  | Cant_delete_last_uid
  | Must_select_at_least_one_key

subsection \<open>\<^verbatim>\<open>menu_select_uid\<close>\<close>

text \<open>
  The validity check of \<^verbatim>\<open>menu_select_uid\<close>: the loop counts the user ids with
  \<^verbatim>\<open>++i\<close> from \<open>i\<close> and breaks at the one whose number is \<open>index\<close>; it yields
  whether the loop left \<^verbatim>\<open>node\<close> non-null.
\<close>

fun find_uid_index :: "int \<Rightarrow> int \<Rightarrow> KBNODE \<Rightarrow> bool" where
  "find_uid_index i index [] = False"
| "find_uid_index i index (node # keyblock) =
     (if pkttype (pkt node) = PKT_USER_ID
      then (if i + 1 = index then True else find_uid_index (i + 1) index keyblock)
      else find_uid_index i index keyblock)"

text \<open>The reset loop for \<open>index = 0\<close>.\<close>

fun reset_all_uid :: "KBNODE \<Rightarrow> KBNODE" where
  "reset_all_uid [] = []"
| "reset_all_uid (node # keyblock) =
     (if pkttype (pkt node) = PKT_USER_ID
      then clear_flag NODFLG_SELUID node # reset_all_uid keyblock
      else node # reset_all_uid keyblock)"

text \<open>The toggle loop: it runs to the end of the list, counting every user id.\<close>

fun toggle_uid :: "int \<Rightarrow> int \<Rightarrow> KBNODE \<Rightarrow> KBNODE" where
  "toggle_uid i index [] = []"
| "toggle_uid i index (node # keyblock) =
     (if pkttype (pkt node) = PKT_USER_ID
      then (if i + 1 = index
            then (if has_flag node NODFLG_SELUID
                  then clear_flag NODFLG_SELUID node
                  else set_flag NODFLG_SELUID node)
            else node) # toggle_uid (i + 1) index keyblock
      else node # toggle_uid i index keyblock)"

text \<open>
  \<^verbatim>\<open>menu_select_uid\<close> returns the changed keyblock, what it printed, and its return
  value (true: the selection is reported as changed).
\<close>

definition menu_select_uid :: "KBNODE \<Rightarrow> int \<Rightarrow> KBNODE \<times> message list \<times> bool" where
  "menu_select_uid keyblock index =
     (if index \<noteq> 0
      then (if \<not> find_uid_index 0 index keyblock
            then (keyblock, [No_user_id_with_index index], False)
            else (toggle_uid 0 index keyblock, [], True))
      else (reset_all_uid keyblock, [], True))"

section \<open>\<^verbatim>\<open>check_all_keysigs\<close>\<close>

text \<open>
  An \<^verbatim>\<open>int\<close> return code: \<open>RC_OK\<close> is 0, the others are the nonzero
  \<^verbatim>\<open>G10ERR_\<close> codes of errors.h. The codes that keyedit.c never tests by name are
  \<open>G10ERR_OTHER\<close> with their number.
\<close>

datatype rc_t =
    RC_OK
  | G10ERR_BAD_SIGN
  | G10ERR_NO_PUBKEY
  | G10ERR_PUBKEY_ALGO
  | G10ERR_OTHER nat

text \<open>The local variables of \<^verbatim>\<open>check_all_keysigs\<close>.\<close>

record keysig_state =
  inv_sigs :: int
  no_key :: int
  oth_err :: int
  has_selfsig :: bool
  mis_selfsig :: int
  selected :: bool
  anyuid :: bool

text \<open>\<^verbatim>\<open>(sig_class & ~3) == 0x10\<close>: a certification of a user id.\<close>

definition is_uid_cert :: "kbnode \<Rightarrow> bool" where
  "is_uid_cert n =
     (case pkt n of Signature s \<Rightarrow> sig_class s AND NOT 3 = 0x10 | _ \<Rightarrow> False)"

text \<open>
  The \<^verbatim>\<open>switch\<close> on the result of \<^verbatim>\<open>check_key_signature\<close>: what it does to the
  node's flag word. Only the first case keeps the word and masks the three error bits
  out; the others assign the word.
\<close>

fun set_sig_flag :: "rc_t \<Rightarrow> kbnode \<Rightarrow> kbnode" where
  "set_sig_flag RC_OK node =
     node\<lparr>flag := flag node AND NOT (NODFLG_BADSIG OR NODFLG_NOKEY OR NODFLG_SIGERR)\<rparr>"
| "set_sig_flag G10ERR_BAD_SIGN node = node\<lparr>flag := NODFLG_BADSIG\<rparr>"
| "set_sig_flag G10ERR_NO_PUBKEY node = node\<lparr>flag := NODFLG_NOKEY\<rparr>"
| "set_sig_flag rc node = node\<lparr>flag := NODFLG_SIGERR\<rparr>"

text \<open>
  The same \<^verbatim>\<open>switch\<close> and the printing code after it, on the counters:
  \<^verbatim>\<open>has_selfsig\<close> is set where \<^verbatim>\<open>sigrc\<close> is \<^verbatim>\<open>'!'\<close> and
  \<^verbatim>\<open>selfsig\<close> is true.
\<close>

fun count_sig :: "rc_t \<Rightarrow> bool \<Rightarrow> keysig_state \<Rightarrow> keysig_state" where
  "count_sig RC_OK selfsig st = (if selfsig then st\<lparr>has_selfsig := True\<rparr> else st)"
| "count_sig G10ERR_BAD_SIGN selfsig st = st\<lparr>inv_sigs := inv_sigs st + 1\<rparr>"
| "count_sig G10ERR_NO_PUBKEY selfsig st = st\<lparr>no_key := no_key st + 1\<rparr>"
| "count_sig rc selfsig st = st\<lparr>oth_err := oth_err st + 1\<rparr>"

text \<open>The user-id branch of the loop body, on the local variables.\<close>

definition visit_uid :: "bool \<Rightarrow> kbnode \<Rightarrow> keysig_state \<Rightarrow> keysig_state" where
  "visit_uid only_selected node st =
     (let st1 = (if only_selected then st\<lparr>selected := has_flag node NODFLG_SELUID\<rparr> else st)
      in if selected st1
         then st1\<lparr>mis_selfsig :=
                     (if anyuid st1 \<and> \<not> has_selfsig st1 then mis_selfsig st1 + 1
                      else mis_selfsig st1),
                   has_selfsig := False,
                   anyuid := True\<rparr>
         else st1)"

text \<open>
  The loop over the keyblock. \<open>check_key_signature\<close> is the collaborator of that name:
  its answer (the return code and \<^verbatim>\<open>selfsig\<close>) for the node at a position of the
  keyblock. Modelled from the spec: \<^verbatim>\<open>walk_kbnode\<close> (kbnode.c) is the forward
  iteration that skips deleted nodes.
\<close>

fun keysig_loop ::
  "(nat \<Rightarrow> rc_t \<times> bool) \<Rightarrow> bool \<Rightarrow> nat \<Rightarrow> KBNODE \<Rightarrow> keysig_state
     \<Rightarrow> KBNODE \<times> keysig_state" where
  "keysig_loop check_key_signature only_selected i [] st = ([], st)"
| "keysig_loop check_key_signature only_selected i (node # keyblock) st =
     (if deleted node
      then (let (kb', st') = keysig_loop check_key_signature only_selected (Suc i) keyblock st
            in (node # kb', st'))
      else if pkttype (pkt node) = PKT_USER_ID
      then (let (kb', st') = keysig_loop check_key_signature only_selected (Suc i) keyblock
                               (visit_uid only_selected node st)
            in (node # kb', st'))
      else if selected st \<and> is_uid_cert node
      then (let (rc, selfsig) = check_key_signature i;
                (kb', st') = keysig_loop check_key_signature only_selected (Suc i) keyblock
                               (count_sig rc selfsig st)
            in (set_sig_flag rc node # kb', st'))
      else (let (kb', st') = keysig_loop check_key_signature only_selected (Suc i) keyblock st
            in (node # kb', st')))"

text \<open>
  \<^verbatim>\<open>check_all_keysigs\<close>: the keyblock with its flags set, the counters after the
  final test of \<^verbatim>\<open>has_selfsig\<close>, and the return value.
\<close>

definition check_all_keysigs ::
  "(nat \<Rightarrow> rc_t \<times> bool) \<Rightarrow> KBNODE \<Rightarrow> bool \<Rightarrow> KBNODE \<times> keysig_state \<times> bool" where
  "check_all_keysigs check_key_signature keyblock only_selected =
     (let (kb', st) = keysig_loop check_key_signature only_selected 0 keyblock
                        \<lparr>inv_sigs = 0, no_key = 0, oth_err = 0, has_selfsig = False,
                         mis_selfsig = 0, selected = \<not> only_selected, anyuid = False\<rparr>;
          st' = (if \<not> has_selfsig st then st\<lparr>mis_selfsig := mis_selfsig st + 1\<rparr> else st)
      in (kb', st',
          \<not> (inv_sigs st' = 0 \<and> no_key st' = 0 \<and> oth_err st' = 0 \<and> mis_selfsig st' = 0)))"

text \<open>
  The \<^verbatim>\<open>check\<close> command of \<^verbatim>\<open>keyedit_menu\<close>, the only caller: it passes the
  number of selected user ids as \<^verbatim>\<open>only_selected\<close>.
\<close>

definition cmd_check ::
  "(nat \<Rightarrow> rc_t \<times> bool) \<Rightarrow> KBNODE \<Rightarrow> KBNODE \<times> keysig_state \<times> bool" where
  "cmd_check check_key_signature keyblock =
     check_all_keysigs check_key_signature keyblock (count_selected_uids keyblock \<noteq> 0)"

subsection \<open>What the walk visits\<close>

text \<open>
  The signatures that the walk classifies, as one truth value per node of the
  keyblock: the live certifications of user ids at which \<^verbatim>\<open>selected\<close> is true.
  \<open>sel\<close> is the value of \<^verbatim>\<open>selected\<close> before the first node.
\<close>

fun classified :: "bool \<Rightarrow> bool \<Rightarrow> KBNODE \<Rightarrow> bool list" where
  "classified only_selected sel [] = []"
| "classified only_selected sel (node # keyblock) =
     (if deleted node then False # classified only_selected sel keyblock
      else if pkttype (pkt node) = PKT_USER_ID
      then False # classified only_selected
                     (if only_selected then has_flag node NODFLG_SELUID else sel) keyblock
      else (sel \<and> is_uid_cert node) # classified only_selected sel keyblock)"

text \<open>
  The user ids that the walk visits: the live user ids, or with \<^verbatim>\<open>only_selected\<close>
  the selected ones of them.
\<close>

definition visited_uid :: "bool \<Rightarrow> kbnode \<Rightarrow> bool" where
  "visited_uid only_selected node =
     (\<not> deleted node \<and> pkttype (pkt node) = PKT_USER_ID
      \<and> (if only_selected then has_flag node NODFLG_SELUID else True))"

text \<open>
  A user id has a verifying self-signature: among the live nodes behind it, up to
  the next user id, there is a certification for which \<open>check_key_signature\<close>
  answers 0 and \<^verbatim>\<open>selfsig\<close>. \<open>i\<close> is the position of the first of these nodes.
\<close>

fun valid_selfsig_behind :: "(nat \<Rightarrow> rc_t \<times> bool) \<Rightarrow> nat \<Rightarrow> KBNODE \<Rightarrow> bool" where
  "valid_selfsig_behind check_key_signature i [] = False"
| "valid_selfsig_behind check_key_signature i (node # keyblock) =
     (if deleted node then valid_selfsig_behind check_key_signature (Suc i) keyblock
      else if pkttype (pkt node) = PKT_USER_ID then False
      else if is_uid_cert node \<and> check_key_signature i = (RC_OK, True) then True
      else valid_selfsig_behind check_key_signature (Suc i) keyblock)"

text \<open>
  The number that the specification gives for \<^verbatim>\<open>mis_selfsig\<close>: one for every
  visited user id without a verifying self-signature.
\<close>

fun uids_missing_selfsig ::
  "(nat \<Rightarrow> rc_t \<times> bool) \<Rightarrow> bool \<Rightarrow> nat \<Rightarrow> KBNODE \<Rightarrow> int" where
  "uids_missing_selfsig check_key_signature only_selected i [] = 0"
| "uids_missing_selfsig check_key_signature only_selected i (node # keyblock) =
     (if visited_uid only_selected node
         \<and> \<not> valid_selfsig_behind check_key_signature (Suc i) keyblock
      then 1 else 0)
     + uids_missing_selfsig check_key_signature only_selected (Suc i) keyblock"

text \<open>
  \<open>BAD_SIG\<close>, \<open>NO_KEY\<close> and \<open>SIG_ERR\<close> exclude each other on a node: no two of
  them are set.
\<close>

definition at_most_one_err :: "kbnode \<Rightarrow> bool" where
  "at_most_one_err n =
     (\<not> (has_flag n NODFLG_BADSIG \<and> has_flag n NODFLG_NOKEY)
      \<and> \<not> (has_flag n NODFLG_BADSIG \<and> has_flag n NODFLG_SIGERR)
      \<and> \<not> (has_flag n NODFLG_NOKEY \<and> has_flag n NODFLG_SIGERR))"

section \<open>Example keyblocks\<close>

definition ex_pk :: PKT_public_key where
  "ex_pk = \<lparr>keyid_from_pk = (0x11, 0x22), local_id = 7\<rparr>"

definition ex_sig :: "keyid \<Rightarrow> PACKET" where
  "ex_sig k = Signature \<lparr>sig_keyid = k, sig_class = 0x10, sig_timestamp = 0\<rparr>"

text \<open>A live node with the given packet and flag word.\<close>

definition ex_node :: "PACKET \<Rightarrow> u32 \<Rightarrow> kbnode" where
  "ex_node p f = \<lparr>pkt = p, flag = f, deleted = False\<rparr>"

text \<open>
  A public key with the user ids Alice (followed by its self-signature and a
  signature by another key that carries stray flag bits) and Bob (selected, followed
  by a signature by a third key).
\<close>

definition ex_keyblock :: KBNODE where
  "ex_keyblock =
     [ex_node (PublicKey ex_pk) 0,
      ex_node (UserId \<lparr>name = ''Alice''\<rparr>) 0,
      ex_node (ex_sig (0x11, 0x22)) 0,
      ex_node (ex_sig (0x33, 0x44)) (NODFLG_MARK_A OR NODFLG_NOKEY),
      ex_node (UserId \<lparr>name = ''Bob''\<rparr>) NODFLG_SELUID,
      ex_node (ex_sig (0x55, 0x66)) NODFLG_MARK_A]"

text \<open>
  An answer of \<open>check_key_signature\<close> for \<open>ex_keyblock\<close>: the self-signature
  verifies, the second signature is bad, the key of the third is missing.
\<close>

definition ex_check :: "nat \<Rightarrow> rc_t \<times> bool" where
  "ex_check i = (if i = 2 then (RC_OK, True)
                 else if i = 3 then (G10ERR_BAD_SIGN, False)
                 else (G10ERR_NO_PUBKEY, False))"

text \<open>A keyblock that holds a primary key and no user id.\<close>

definition ex_no_uid :: KBNODE where
  "ex_no_uid = [ex_node (PublicKey ex_pk) 0]"

section \<open>The node store\<close>

text \<open>
  Modelled from the spec: the node store of kbnode.c is not part of keyedit.c.
  \<open>new_kbnode\<close> makes a live node with a clear flag word; insert-after puts a node
  right behind the node at a position; append puts it at the end; delete sets the
  deleted bit; commit removes the deleted nodes and keeps the others in their order;
  find-first gives the first node of a kind.

  The third argument of \<^verbatim>\<open>insert_kbnode\<close> is a packet type or 0: keyedit.c passes
  0 in \<^verbatim>\<open>menu_adduid\<close> and \<^verbatim>\<open>PKT_SIGNATURE\<close> in \<^verbatim>\<open>sign_uids\<close>. With 0 the
  node goes right behind the given node. With a packet type it goes behind the
  given node and the packets of that type that follow it directly: before the
  first later packet of another type, or at the end if there is none.
\<close>

definition new_kbnode :: "PACKET \<Rightarrow> kbnode" where
  "new_kbnode p = \<lparr>pkt = p, flag = 0, deleted = False\<rparr>"

definition insert_kbnode :: "KBNODE \<Rightarrow> nat \<Rightarrow> kbnode \<Rightarrow> pkttype_t option \<Rightarrow> KBNODE" where
  "insert_kbnode keyblock i node t =
     (case t of
        None \<Rightarrow> take (Suc i) keyblock @ node # drop (Suc i) keyblock
      | Some ty \<Rightarrow>
          take (Suc i) keyblock
            @ takeWhile (\<lambda>n. pkttype (pkt n) = ty) (drop (Suc i) keyblock)
            @ node # dropWhile (\<lambda>n. pkttype (pkt n) = ty) (drop (Suc i) keyblock))"

definition add_kbnode :: "KBNODE \<Rightarrow> kbnode \<Rightarrow> KBNODE" where
  "add_kbnode root node = root @ [node]"

definition delete_kbnode :: "kbnode \<Rightarrow> kbnode" where
  "delete_kbnode node = node\<lparr>deleted := True\<rparr>"

definition commit_kbnode :: "KBNODE \<Rightarrow> KBNODE" where
  "commit_kbnode keyblock = filter (\<lambda>node. \<not> deleted node) keyblock"

text \<open>A node pointer into a keyblock is the position of the node.\<close>

fun find_kbnode_from :: "nat \<Rightarrow> KBNODE \<Rightarrow> pkttype_t \<Rightarrow> nat option" where
  "find_kbnode_from i [] t = None"
| "find_kbnode_from i (node # keyblock) t =
     (if pkttype (pkt node) = t then Some i else find_kbnode_from (Suc i) keyblock t)"

definition find_kbnode :: "KBNODE \<Rightarrow> pkttype_t \<Rightarrow> nat option" where
  "find_kbnode keyblock t = find_kbnode_from 0 keyblock t"

text \<open>
  Modelled from the spec: \<^verbatim>\<open>make_keysig_packet\<close> (sign.c) is the collaborator that
  produces a certification of the given class by the signer's secret key, or fails.
  Its outcome (the return code and the creation time it stamps) is an input; the
  signature it makes names the signer's key id and the class asked for.
\<close>

definition make_keysig_packet ::
  "rc_t \<times> u32 \<Rightarrow> PKT_secret_key \<Rightarrow> byte \<Rightarrow> rc_t \<times> PKT_signature" where
  "make_keysig_packet outcome sk sigclass =
     (fst outcome,
      \<lparr>sig_keyid = keyid_from_sk sk, sig_class = sigclass, sig_timestamp = snd outcome\<rparr>)"

section \<open>\<^verbatim>\<open>menu_deluid\<close>, \<^verbatim>\<open>menu_delkey\<close> and \<^verbatim>\<open>menu_adduid\<close>\<close>

text \<open>
  The inner loop of \<^verbatim>\<open>menu_deluid\<close> over the secret keyblock, with its variable
  \<^verbatim>\<open>s_selected\<close>. The names are compared as the code does: equal lengths and
  \<^verbatim>\<open>memcmp\<close> over \<^verbatim>\<open>uid->len\<close> bytes.
\<close>

fun deluid_sec :: "PKT_user_id \<Rightarrow> bool \<Rightarrow> KBNODE \<Rightarrow> KBNODE" where
  "deluid_sec uid s_selected [] = []"
| "deluid_sec uid s_selected (snode # sec) =
     (case pkt snode of
        UserId suid \<Rightarrow>
          (let s_sel = (length (name uid) = length (name suid)
                        \<and> take (length (name uid)) (name uid)
                            = take (length (name uid)) (name suid))
           in (if s_sel then delete_kbnode snode else snode) # deluid_sec uid s_sel sec)
      | _ \<Rightarrow>
          (if s_selected \<and> pkttype (pkt snode) = PKT_SIGNATURE
           then delete_kbnode snode # deluid_sec uid s_selected sec
           else if pkttype (pkt snode) = PKT_SECRET_SUBKEY
           then snode # deluid_sec uid False sec
           else snode # deluid_sec uid s_selected sec))"

text \<open>
  The outer loop over the public keyblock, with its variable \<^verbatim>\<open>selected\<close>
  (\<open>sel\<close>); it yields both keyblocks with their tombstones set.
\<close>

fun deluid_pub :: "bool \<Rightarrow> KBNODE \<Rightarrow> KBNODE \<Rightarrow> KBNODE \<times> KBNODE" where
  "deluid_pub sel [] sec = ([], sec)"
| "deluid_pub sel (node # pub) sec =
     (case pkt node of
        UserId uid \<Rightarrow>
          (if has_flag node NODFLG_SELUID
           then (let sec1 = (if sec \<noteq> [] then deluid_sec uid False sec else sec);
                     (pub', sec') = deluid_pub True pub sec1
                 in (delete_kbnode node # pub', sec'))
           else (let (pub', sec') = deluid_pub False pub sec
                 in (node # pub', sec')))
      | _ \<Rightarrow>
          (if sel \<and> pkttype (pkt node) = PKT_SIGNATURE
           then (let (pub', sec') = deluid_pub sel pub sec
                 in (delete_kbnode node # pub', sec'))
           else if pkttype (pkt node) = PKT_PUBLIC_SUBKEY
           then (let (pub', sec') = deluid_pub False pub sec
                 in (node # pub', sec'))
           else (let (pub', sec') = deluid_pub sel pub sec
                 in (node # pub', sec'))))"

text \<open>
  \<^verbatim>\<open>commit_kbnode\<close> is called on the function's own copy of the root pointer. Should
  the first node of a keyblock be deleted, the caller's pointer would be left on a
  freed node: the model yields \<open>None\<close> there.
\<close>

definition root_deleted :: "KBNODE \<Rightarrow> bool" where
  "root_deleted keyblock = (case keyblock of [] \<Rightarrow> False | node # _ \<Rightarrow> deleted node)"

definition menu_deluid :: "KBNODE \<Rightarrow> KBNODE \<Rightarrow> (KBNODE \<times> KBNODE) option" where
  "menu_deluid pub_keyblock sec_keyblock =
     (let (pub', sec') = deluid_pub False pub_keyblock sec_keyblock
      in if root_deleted pub' \<or> root_deleted sec' then None
         else Some (commit_kbnode pub',
                    if sec_keyblock \<noteq> [] then commit_kbnode sec' else sec'))"

text \<open>The loops of \<^verbatim>\<open>menu_delkey\<close>; the key ids are those of the key packets.\<close>

fun delkey_sec :: "keyid \<Rightarrow> bool \<Rightarrow> KBNODE \<Rightarrow> KBNODE" where
  "delkey_sec ki s_selected [] = []"
| "delkey_sec ki s_selected (snode # sec) =
     (case pkt snode of
        SecretSubkey ssk \<Rightarrow>
          (let s_sel = (fst ki = fst (keyid_from_sk ssk) \<and> snd ki = snd (keyid_from_sk ssk))
           in (if s_sel then delete_kbnode snode else snode) # delkey_sec ki s_sel sec)
      | _ \<Rightarrow>
          (if s_selected \<and> pkttype (pkt snode) = PKT_SIGNATURE
           then delete_kbnode snode # delkey_sec ki s_selected sec
           else snode # delkey_sec ki False sec))"

fun delkey_pub :: "bool \<Rightarrow> KBNODE \<Rightarrow> KBNODE \<Rightarrow> KBNODE \<times> KBNODE" where
  "delkey_pub sel [] sec = ([], sec)"
| "delkey_pub sel (node # pub) sec =
     (case pkt node of
        PublicSubkey pk \<Rightarrow>
          (if has_flag node NODFLG_SELKEY
           then (let sec1 = (if sec \<noteq> [] then delkey_sec (keyid_from_pk pk) False sec else sec);
                     (pub', sec') = delkey_pub True pub sec1
                 in (delete_kbnode node # pub', sec'))
           else (let (pub', sec') = delkey_pub False pub sec
                 in (node # pub', sec')))
      | _ \<Rightarrow>
          (if sel \<and> pkttype (pkt node) = PKT_SIGNATURE
           then (let (pub', sec') = delkey_pub sel pub sec
                 in (delete_kbnode node # pub', sec'))
           else (let (pub', sec') = delkey_pub False pub sec
                 in (node # pub', sec'))))"

definition menu_delkey :: "KBNODE \<Rightarrow> KBNODE \<Rightarrow> (KBNODE \<times> KBNODE) option" where
  "menu_delkey pub_keyblock sec_keyblock =
     (let (pub', sec') = delkey_pub False pub_keyblock sec_keyblock
      in if root_deleted pub' \<or> root_deleted sec' then None
         else Some (commit_kbnode pub',
                    if sec_keyblock \<noteq> [] then commit_kbnode sec' else sec'))"

text \<open>
  The two scans of \<^verbatim>\<open>menu_adduid\<close>: each runs to the first subkey and yields its
  position (none if the loop ran off the list) and the primary key seen on the way.
\<close>

fun adduid_scan_pub ::
  "nat \<Rightarrow> PKT_public_key option \<Rightarrow> KBNODE \<Rightarrow> nat option \<times> PKT_public_key option" where
  "adduid_scan_pub i pk [] = (None, pk)"
| "adduid_scan_pub i pk (node # keyblock) =
     (case pkt node of
        PublicKey k \<Rightarrow> adduid_scan_pub (Suc i) (Some k) keyblock
      | PublicSubkey _ \<Rightarrow> (Some i, pk)
      | _ \<Rightarrow> adduid_scan_pub (Suc i) pk keyblock)"

fun adduid_scan_sec ::
  "nat \<Rightarrow> PKT_secret_key option \<Rightarrow> KBNODE \<Rightarrow> nat option \<times> PKT_secret_key option" where
  "adduid_scan_sec i sk [] = (None, sk)"
| "adduid_scan_sec i sk (node # keyblock) =
     (case pkt node of
        SecretKey k \<Rightarrow> adduid_scan_sec (Suc i) (Some k) keyblock
      | SecretSubkey _ \<Rightarrow> (Some i, sk)
      | _ \<Rightarrow> adduid_scan_sec (Suc i) sk keyblock)"

text \<open>
  \<^verbatim>\<open>pub_where\<close> and \<^verbatim>\<open>sec_where\<close>: the node before the first subkey. It is
  \<^verbatim>\<open>NULL\<close> when there is no subkey, and stays \<^verbatim>\<open>NULL\<close> when the subkey is the
  first node.
\<close>

fun where_of :: "nat option \<Rightarrow> nat option" where
  "where_of None = None"
| "where_of (Some 0) = None"
| "where_of (Some (Suc i)) = Some i"

text \<open>The new user id and its signature go behind that node, or at the end.\<close>

definition adduid_insert :: "nat option \<Rightarrow> KBNODE \<Rightarrow> kbnode \<Rightarrow> kbnode \<Rightarrow> KBNODE" where
  "adduid_insert wh keyblock uidnode signode =
     (case wh of
        Some i \<Rightarrow> insert_kbnode (insert_kbnode keyblock i uidnode None) (Suc i) signode None
      | None \<Rightarrow> add_kbnode (add_kbnode keyblock uidnode) signode)"

text \<open>
  \<^verbatim>\<open>menu_adduid\<close>. \<open>new_uid\<close> is what \<^verbatim>\<open>generate_user_id\<close> returned and
  \<open>keysig\<close> the outcome of \<^verbatim>\<open>make_keysig_packet\<close>. The result is \<open>None\<close> when
  the assertion \<^verbatim>\<open>assert(pk && sk)\<close> fails; otherwise the return value and both
  keyblocks.
\<close>

definition menu_adduid ::
  "PKT_user_id option \<Rightarrow> rc_t \<times> u32 \<Rightarrow> KBNODE \<Rightarrow> KBNODE \<Rightarrow> (bool \<times> KBNODE \<times> KBNODE) option" where
  "menu_adduid new_uid keysig pub_keyblock sec_keyblock =
     (case new_uid of
        None \<Rightarrow> Some (False, pub_keyblock, sec_keyblock)
      | Some uid \<Rightarrow>
          (let (pub_sub, pk) = adduid_scan_pub 0 None pub_keyblock;
               (sec_sub, sk) = adduid_scan_sec 0 None sec_keyblock
           in case (pk, sk) of
                (Some pk', Some sk') \<Rightarrow>
                  (let (rc, sig) = make_keysig_packet keysig sk' 0x13
                   in if rc \<noteq> RC_OK then Some (False, pub_keyblock, sec_keyblock)
                      else Some (True,
                             adduid_insert (where_of pub_sub) pub_keyblock
                               (new_kbnode (UserId uid)) (new_kbnode (Signature sig)),
                             adduid_insert (where_of sec_sub) sec_keyblock
                               (new_kbnode (UserId uid)) (new_kbnode (Signature sig))))
              | _ \<Rightarrow> None))"

subsection \<open>The pairing of the two keyblocks\<close>

text \<open>
  The names of the live user ids of a keyblock, and the key ids of its live public
  and secret subkeys, in keyblock order.
\<close>

fun uid_names :: "KBNODE \<Rightarrow> string list" where
  "uid_names [] = []"
| "uid_names (node # keyblock) =
     (case pkt node of
        UserId uid \<Rightarrow> (if deleted node then uid_names keyblock
                        else name uid # uid_names keyblock)
      | _ \<Rightarrow> uid_names keyblock)"

fun pub_subkey_ids :: "KBNODE \<Rightarrow> keyid list" where
  "pub_subkey_ids [] = []"
| "pub_subkey_ids (node # keyblock) =
     (case pkt node of
        PublicSubkey pk \<Rightarrow> (if deleted node then pub_subkey_ids keyblock
                             else keyid_from_pk pk # pub_subkey_ids keyblock)
      | _ \<Rightarrow> pub_subkey_ids keyblock)"

fun sec_subkey_ids :: "KBNODE \<Rightarrow> keyid list" where
  "sec_subkey_ids [] = []"
| "sec_subkey_ids (node # keyblock) =
     (case pkt node of
        SecretSubkey sk \<Rightarrow> (if deleted node then sec_subkey_ids keyblock
                             else keyid_from_sk sk # sec_subkey_ids keyblock)
      | _ \<Rightarrow> sec_subkey_ids keyblock)"

text \<open>
  The pairing invariant: every user id name of the public keyblock occurs in the
  secret one, and the two have the same subkey key ids.
\<close>

definition pairing :: "KBNODE \<Rightarrow> KBNODE \<Rightarrow> bool" where
  "pairing pub sec =
     (set (uid_names pub) \<subseteq> set (uid_names sec)
      \<and> set (pub_subkey_ids pub) = set (sec_subkey_ids sec))"

text \<open>
  The names of the user ids that \<^verbatim>\<open>menu_deluid\<close> finds selected, and of the live
  ones it leaves; likewise the key ids of the public subkeys for \<^verbatim>\<open>menu_delkey\<close>.
\<close>

fun selected_uid_names :: "KBNODE \<Rightarrow> string list" where
  "selected_uid_names [] = []"
| "selected_uid_names (node # keyblock) =
     (case pkt node of
        UserId uid \<Rightarrow> (if has_flag node NODFLG_SELUID
                        then name uid # selected_uid_names keyblock
                        else selected_uid_names keyblock)
      | _ \<Rightarrow> selected_uid_names keyblock)"

fun kept_uid_names :: "KBNODE \<Rightarrow> string list" where
  "kept_uid_names [] = []"
| "kept_uid_names (node # keyblock) =
     (case pkt node of
        UserId uid \<Rightarrow> (if has_flag node NODFLG_SELUID \<or> deleted node
                        then kept_uid_names keyblock
                        else name uid # kept_uid_names keyblock)
      | _ \<Rightarrow> kept_uid_names keyblock)"

fun selected_subkey_ids :: "KBNODE \<Rightarrow> keyid list" where
  "selected_subkey_ids [] = []"
| "selected_subkey_ids (node # keyblock) =
     (case pkt node of
        PublicSubkey pk \<Rightarrow> (if has_flag node NODFLG_SELKEY
                             then keyid_from_pk pk # selected_subkey_ids keyblock
                             else selected_subkey_ids keyblock)
      | _ \<Rightarrow> selected_subkey_ids keyblock)"

fun kept_subkey_ids :: "KBNODE \<Rightarrow> keyid list" where
  "kept_subkey_ids [] = []"
| "kept_subkey_ids (node # keyblock) =
     (case pkt node of
        PublicSubkey pk \<Rightarrow> (if has_flag node NODFLG_SELKEY \<or> deleted node
                             then kept_subkey_ids keyblock
                             else keyid_from_pk pk # kept_subkey_ids keyblock)
      | _ \<Rightarrow> kept_subkey_ids keyblock)"

text \<open>
  A pair of keyblocks for the examples: Alice and Bob (selected), and two subkeys,
  the first one selected.
\<close>

definition ex_sk :: PKT_secret_key where
  "ex_sk = \<lparr>keyid_from_sk = (0x11, 0x22), sk_algo_supported = True, is_protected = True,
            protect_algo = 4, protect_s2k = \<lparr>s2k_mode = 1, s2k_hash_algo = 3\<rparr>\<rparr>"

definition ex_pub :: KBNODE where
  "ex_pub =
     [ex_node (PublicKey ex_pk) 0,
      ex_node (UserId \<lparr>name = ''Alice''\<rparr>) 0,
      ex_node (ex_sig (0x11, 0x22)) 0,
      ex_node (UserId \<lparr>name = ''Bob''\<rparr>) NODFLG_SELUID,
      ex_node (ex_sig (0x11, 0x22)) 0,
      ex_node (PublicSubkey \<lparr>keyid_from_pk = (0x77, 0x88), local_id = 0\<rparr>) NODFLG_SELKEY,
      ex_node (ex_sig (0x11, 0x22)) 0,
      ex_node (PublicSubkey \<lparr>keyid_from_pk = (0x99, 0xAA), local_id = 0\<rparr>) 0,
      ex_node (ex_sig (0x11, 0x22)) 0]"

definition ex_sec :: KBNODE where
  "ex_sec =
     [ex_node (SecretKey ex_sk) 0,
      ex_node (UserId \<lparr>name = ''Alice''\<rparr>) 0,
      ex_node (ex_sig (0x11, 0x22)) 0,
      ex_node (UserId \<lparr>name = ''Bob''\<rparr>) 0,
      ex_node (ex_sig (0x11, 0x22)) 0,
      ex_node (SecretSubkey (ex_sk\<lparr>keyid_from_sk := (0x77, 0x88)\<rparr>)) 0,
      ex_node (ex_sig (0x11, 0x22)) 0,
      ex_node (SecretSubkey (ex_sk\<lparr>keyid_from_sk := (0x99, 0xAA)\<rparr>)) 0,
      ex_node (ex_sig (0x11, 0x22)) 0]"

text \<open>
  A pair of keyblocks in which the user id Alice stands twice, as it does after two
  \<^verbatim>\<open>adduid\<close> commands with the same name; the first one is selected.
\<close>

definition ex_dup_pub :: KBNODE where
  "ex_dup_pub =
     [ex_node (PublicKey ex_pk) 0,
      ex_node (UserId \<lparr>name = ''Alice''\<rparr>) NODFLG_SELUID,
      ex_node (ex_sig (0x11, 0x22)) 0,
      ex_node (UserId \<lparr>name = ''Alice''\<rparr>) 0,
      ex_node (ex_sig (0x11, 0x22)) 0]"

definition ex_dup_sec :: KBNODE where
  "ex_dup_sec =
     [ex_node (SecretKey ex_sk) 0,
      ex_node (UserId \<lparr>name = ''Alice''\<rparr>) 0,
      ex_node (ex_sig (0x11, 0x22)) 0,
      ex_node (UserId \<lparr>name = ''Alice''\<rparr>) 0,
      ex_node (ex_sig (0x11, 0x22)) 0]"

section \<open>\<^verbatim>\<open>sign_uids\<close>\<close>

text \<open>
  What the collaborators and the operator do during one call: the signers that
  \<^verbatim>\<open>build_sk_list\<close> resolves the local users to, the answers to the successive
  "Really sign?" questions, the outcomes of the successive calls of
  \<^verbatim>\<open>make_keysig_packet\<close>, and the return code of
  \<^verbatim>\<open>clear_trust_checked_flag\<close>.
\<close>

record sign_env =
  build_sk_list :: "string list \<Rightarrow> rc_t \<times> PKT_secret_key list"
  answer_is_yes :: "nat \<Rightarrow> bool"
  keysig_outcomes :: "nat \<Rightarrow> rc_t \<times> u32"
  clear_trust_checked_flag :: "PKT_public_key \<Rightarrow> rc_t"

text \<open>The rest of a sequence of outcomes after its first one is used.\<close>

definition rest_of :: "(nat \<Rightarrow> 'a) \<Rightarrow> nat \<Rightarrow> 'a" where
  "rest_of f = (\<lambda>i. f (Suc i))"

text \<open>
  The variables of \<^verbatim>\<open>sign_uids\<close> that change during the loop over the signers,
  with the answers and outcomes not yet used.
\<close>

record sign_state =
  st_keyblock :: KBNODE
  ret_modified :: bool
  upd_trust :: bool
  primary_pk :: "PKT_public_key option"
  answers :: "nat \<Rightarrow> bool"
  keysigs :: "nat \<Rightarrow> rc_t \<times> u32"

text \<open>
  The condition \<^verbatim>\<open>select_all || (node->flag & NODFLG_SELUID)\<close> of the loop that
  sets mark A, and that loop: it runs over every node of the keyblock.
\<close>

definition candidate :: "bool \<Rightarrow> kbnode \<Rightarrow> bool" where
  "candidate select_all node = (select_all \<or> has_flag node NODFLG_SELUID)"

definition mark_selected :: "bool \<Rightarrow> KBNODE \<Rightarrow> KBNODE" where
  "mark_selected select_all keyblock =
     map (\<lambda>node. if candidate select_all node
                 then set_flag NODFLG_MARK_A node
                 else clear_flag NODFLG_MARK_A node) keyblock"

text \<open>The signer's key id compared with that of a signature packet.\<close>

definition signed_by :: "keyid \<Rightarrow> kbnode \<Rightarrow> bool" where
  "signed_by sk_keyid node =
     (case pkt node of
        Signature sg \<Rightarrow> fst sk_keyid = fst (sig_keyid sg) \<and> snd sk_keyid = snd (sig_keyid sg)
      | _ \<Rightarrow> False)"

text \<open>
  The loop that resets the mark of the user ids which are already signed. \<open>seen\<close>
  holds the nodes the loop has passed, and \<^verbatim>\<open>uidnode\<close> points into them: it is the
  position of the last user id if that one was marked.
\<close>

fun unmark_signed :: "keyid \<Rightarrow> KBNODE \<Rightarrow> nat option \<Rightarrow> KBNODE \<Rightarrow> KBNODE" where
  "unmark_signed sk_keyid seen uidnode [] = seen"
| "unmark_signed sk_keyid seen uidnode (node # keyblock) =
     (if pkttype (pkt node) = PKT_USER_ID
      then unmark_signed sk_keyid (seen @ [node])
             (if has_flag node NODFLG_MARK_A then Some (length seen) else None) keyblock
      else if uidnode \<noteq> None \<and> is_uid_cert node \<and> signed_by sk_keyid node
      then unmark_signed sk_keyid
             (seen[the uidnode := clear_flag NODFLG_MARK_A (seen ! the uidnode)] @ [node])
             uidnode keyblock
      else unmark_signed sk_keyid (seen @ [node]) uidnode keyblock)"

text \<open>
  One run of the signing loop from \<^verbatim>\<open>reloop\<close>: it ends at the first marked user
  id, at position \<open>i\<close>, or at the end of the keyblock, in both cases with
  \<^verbatim>\<open>primary_pk\<close> as the loop has set it by then.
\<close>

datatype reloop =
    Marked_uid nat "PKT_public_key option"
  | No_marked_uid "PKT_public_key option"

fun find_marked_uid :: "PKT_public_key option \<Rightarrow> nat \<Rightarrow> KBNODE \<Rightarrow> reloop" where
  "find_marked_uid ppk i [] = No_marked_uid ppk"
| "find_marked_uid ppk i (node # keyblock) =
     (case pkt node of
        PublicKey pk \<Rightarrow> find_marked_uid (Some pk) (Suc i) keyblock
      | UserId _ \<Rightarrow> (if has_flag node NODFLG_MARK_A then Marked_uid i ppk
                      else find_marked_uid ppk (Suc i) keyblock)
      | _ \<Rightarrow> find_marked_uid ppk (Suc i) keyblock)"

lemma find_marked_uid_found:
  "find_marked_uid ppk j kb = Marked_uid i p \<Longrightarrow>
   j \<le> i \<and> i - j < length kb \<and> pkttype (pkt (kb ! (i - j))) = PKT_USER_ID
   \<and> has_flag (kb ! (i - j)) NODFLG_MARK_A"
proof (induction kb arbitrary: ppk j)
  case Nil
  then show ?case by simp
next
  case (Cons n kb)
  show ?case
  proof (cases "pkttype (pkt n) = PKT_USER_ID \<and> has_flag n NODFLG_MARK_A")
    case True
    with Cons.prems show ?thesis
      by (cases "pkt n") simp_all
  next
    case False
    then obtain ppk' where "find_marked_uid ppk' (Suc j) kb = Marked_uid i p"
      using Cons.prems by (cases "pkt n") (auto split: if_splits)
    from Cons.IH[OF this] have "Suc j \<le> i" "i - Suc j < length kb"
      "pkttype (pkt (kb ! (i - Suc j))) = PKT_USER_ID"
      "has_flag (kb ! (i - Suc j)) NODFLG_MARK_A" by simp_all
    moreover from \<open>Suc j \<le> i\<close> have "i - j = Suc (i - Suc j)" by simp
    ultimately show ?thesis by simp
  qed
qed

lemma count_uids_with_flag_append:
  "count_uids_with_flag (xs @ ys) f = count_uids_with_flag xs f + count_uids_with_flag ys f"
  by (induction xs) simp_all

lemma count_marked_pos:
  "i < length kb \<Longrightarrow> pkttype (pkt (kb ! i)) = PKT_USER_ID \<Longrightarrow> has_flag (kb ! i) f \<Longrightarrow>
   0 < count_uids_with_flag kb f"
proof (induction kb arbitrary: i)
  case Nil
  then show ?case by simp
next
  case (Cons n kb)
  have nn: "0 \<le> count_uids_with_flag kb f" by (induction kb) simp_all
  show ?case
  proof (cases i)
    case 0
    with Cons.prems nn show ?thesis by simp
  next
    case (Suc i')
    with Cons.prems Cons.IH[of i'] have "0 < count_uids_with_flag kb f" by simp
    then show ?thesis by simp
  qed
qed

lemma count_after_clear:
  "i < length kb \<Longrightarrow> pkttype (pkt (kb ! i)) = PKT_USER_ID \<Longrightarrow> has_flag (kb ! i) f \<Longrightarrow>
   count_uids_with_flag (kb[i := clear_flag f (kb ! i)]) f = count_uids_with_flag kb f - 1"
proof (induction kb arbitrary: i)
  case Nil
  then show ?case by simp
next
  case (Cons n kb)
  show ?case
  proof (cases i)
    case 0
    with Cons.prems show ?thesis
      by (simp add: has_flag_def clear_flag_def word_bw_assocs)
  next
    case (Suc i')
    with Cons.prems Cons.IH[of i'] show ?thesis by simp
  qed
qed

lemma count_uids_with_flag_insert:
  assumes "pkttype (pkt node) \<noteq> PKT_USER_ID"
  shows "count_uids_with_flag (xs @ takeWhile P ys @ node # dropWhile P ys) f
           = count_uids_with_flag (xs @ ys) f"
proof -
  have "count_uids_with_flag (takeWhile P ys) f + count_uids_with_flag (dropWhile P ys) f
          = count_uids_with_flag (takeWhile P ys @ dropWhile P ys) f"
    by (simp only: count_uids_with_flag_append)
  also have "\<dots> = count_uids_with_flag ys f"
    by (simp only: takeWhile_dropWhile_id)
  finally show ?thesis
    using assms by (simp add: count_uids_with_flag_append)
qed

lemma count_after_signing:
  assumes "i < length kb" "pkttype (pkt (kb ! i)) = PKT_USER_ID" "has_flag (kb ! i) f"
  shows "count_uids_with_flag
           (insert_kbnode (kb[i := clear_flag f (kb ! i)]) i (new_kbnode (Signature sg))
              (Some PKT_SIGNATURE)) f
         = count_uids_with_flag kb f - 1"
proof -
  let ?kb1 = "kb[i := clear_flag f (kb ! i)]"
  have "count_uids_with_flag
          (insert_kbnode ?kb1 i (new_kbnode (Signature sg)) (Some PKT_SIGNATURE)) f
          = count_uids_with_flag (take (Suc i) ?kb1 @ drop (Suc i) ?kb1) f"
    unfolding insert_kbnode_def option.case
    by (rule count_uids_with_flag_insert) (simp add: new_kbnode_def)
  also have "\<dots> = count_uids_with_flag ?kb1 f"
    by (simp only: append_take_drop_id)
  finally show ?thesis
    using count_after_clear[OF assms] by simp
qed

text \<open>
  The signing of the marked user ids for one signer. Each round starts at
  \<^verbatim>\<open>reloop\<close>; at a marked user id it clears the mark, makes the signature, and on
  success inserts it behind the user id and its signatures and starts again. The result is \<open>None\<close>
  when \<^verbatim>\<open>assert( primary_pk )\<close> fails; otherwise \<^verbatim>\<open>rc\<close> (not 0: the function
  goes to \<^verbatim>\<open>leave\<close>) and the variables.
\<close>

function sign_marked :: "PKT_secret_key \<Rightarrow> sign_state \<Rightarrow> (rc_t \<times> sign_state) option" where
  "sign_marked sk st =
     (case find_marked_uid None 0 (st_keyblock st) of
        No_marked_uid ppk \<Rightarrow> Some (RC_OK, st\<lparr>primary_pk := ppk\<rparr>)
      | Marked_uid i ppk \<Rightarrow>
          (case ppk of
             None \<Rightarrow> None
           | Some pk \<Rightarrow>
               (let kb1 = (st_keyblock st)[i := clear_flag NODFLG_MARK_A (st_keyblock st ! i)];
                    (rc, sg) = make_keysig_packet (keysigs st 0) sk 0x10;
                    st1 = st\<lparr>st_keyblock := kb1, primary_pk := ppk,
                             keysigs := rest_of (keysigs st)\<rparr>
                in if rc \<noteq> RC_OK then Some (rc, st1)
                   else sign_marked sk
                          (st1\<lparr>st_keyblock := insert_kbnode kb1 i (new_kbnode (Signature sg))
                                                  (Some PKT_SIGNATURE),
                                ret_modified := True, upd_trust := True\<rparr>))))"
  by pat_completeness auto
termination
proof (relation "measure (\<lambda>(sk, st). nat (count_uids_with_flag (st_keyblock st) NODFLG_MARK_A))")
  show "wf (measure (\<lambda>(sk, st). nat (count_uids_with_flag (st_keyblock st) NODFLG_MARK_A)))"
    by simp
next
  fix sk :: PKT_secret_key and st :: sign_state and i ppk pk kb1 x rc sg st1
  assume found: "find_marked_uid None 0 (st_keyblock st) = Marked_uid i ppk"
    and kb1: "kb1 = (st_keyblock st)[i := clear_flag NODFLG_MARK_A (st_keyblock st ! i)]"
    and st1: "st1 = st\<lparr>st_keyblock := kb1, primary_pk := ppk, keysigs := rest_of (keysigs st)\<rparr>"
  from find_marked_uid_found[OF found]
  have i: "i < length (st_keyblock st)"
    and u: "pkttype (pkt (st_keyblock st ! i)) = PKT_USER_ID"
    and m: "has_flag (st_keyblock st ! i) NODFLG_MARK_A"
    by simp_all
  have "count_uids_with_flag
          (insert_kbnode kb1 i (new_kbnode (Signature sg)) (Some PKT_SIGNATURE)) NODFLG_MARK_A
          = count_uids_with_flag (st_keyblock st) NODFLG_MARK_A - 1"
    unfolding kb1 by (rule count_after_signing[OF i u m])
  moreover have "0 < count_uids_with_flag (st_keyblock st) NODFLG_MARK_A"
    by (rule count_marked_pos[OF i u m])
  ultimately show "((sk, st1\<lparr>st_keyblock := insert_kbnode kb1 i (new_kbnode (Signature sg))
                                            (Some PKT_SIGNATURE),
                          ret_modified := True, upd_trust := True\<rparr>), sk, st)
        \<in> measure (\<lambda>(sk, st). nat (count_uids_with_flag (st_keyblock st) NODFLG_MARK_A))"
    by simp
qed

text \<open>
  The loop over the signers. It yields \<^verbatim>\<open>rc\<close> and the variables: \<^verbatim>\<open>rc\<close> is not
  0 when a failed signature has sent the function to \<^verbatim>\<open>leave\<close>, and 0 when the
  loop has come to the end of the list. \<open>None\<close> as for \<open>sign_marked\<close>.
\<close>

fun sign_loop ::
  "bool \<Rightarrow> PKT_secret_key list \<Rightarrow> sign_state \<Rightarrow> (rc_t \<times> sign_state) option" where
  "sign_loop select_all [] st = Some (RC_OK, st)"
| "sign_loop select_all (sk # sk_rover) st =
     (let kb1 = mark_selected select_all (st_keyblock st);
          kb2 = unmark_signed (keyid_from_sk sk) [] None kb1
      in if count_uids_with_flag kb2 NODFLG_MARK_A = 0
         then sign_loop select_all sk_rover (st\<lparr>st_keyblock := kb2\<rparr>)
         else if \<not> answers st 0
         then sign_loop select_all sk_rover
                (st\<lparr>st_keyblock := kb2, answers := rest_of (answers st)\<rparr>)
         else (case sign_marked sk (st\<lparr>st_keyblock := kb2, answers := rest_of (answers st)\<rparr>) of
                 None \<Rightarrow> None
               | Some (rc, st') \<Rightarrow>
                   if rc \<noteq> RC_OK then Some (rc, st')
                   else sign_loop select_all sk_rover st'))"

text \<open>
  What \<^verbatim>\<open>sign_uids\<close> leaves: its return code, the keyblock, \<^verbatim>\<open>*ret_modified\<close>, and
  whether it has called \<^verbatim>\<open>clear_trust_checked_flag\<close> on the primary key.
\<close>

record sign_result =
  sr_rc :: rc_t
  sr_keyblock :: KBNODE
  sr_modified :: bool
  sr_trust_cleared :: bool

text \<open>
  \<^verbatim>\<open>sign_uids\<close>; \<open>modified\<close> is the value of \<^verbatim>\<open>*ret_modified\<close> at the call.
  \<open>None\<close> as for \<open>sign_marked\<close>.
\<close>

definition sign_uids ::
  "sign_env \<Rightarrow> KBNODE \<Rightarrow> string list \<Rightarrow> bool \<Rightarrow> sign_result option" where
  "sign_uids env keyblock locusr modified =
     (let select_all = (count_selected_uids keyblock = 0);
          (rc, sk_list) = build_sk_list env locusr
      in if rc \<noteq> RC_OK
         then Some \<lparr>sr_rc = rc, sr_keyblock = keyblock, sr_modified = modified,
                     sr_trust_cleared = False\<rparr>
         else (case sign_loop select_all sk_list
                      \<lparr>st_keyblock = keyblock, ret_modified = modified, upd_trust = False,
                       primary_pk = None, answers = answer_is_yes env,
                       keysigs = keysig_outcomes env\<rparr> of
                 None \<Rightarrow> None
               | Some (rc', st) \<Rightarrow>
                   (if rc' \<noteq> RC_OK
                    then Some \<lparr>sr_rc = rc', sr_keyblock = st_keyblock st,
                                sr_modified = ret_modified st, sr_trust_cleared = False\<rparr>
                    else (case primary_pk st of
                            Some pk \<Rightarrow>
                              (if upd_trust st
                               then Some \<lparr>sr_rc = clear_trust_checked_flag env pk,
                                           sr_keyblock = st_keyblock st,
                                           sr_modified = ret_modified st,
                                           sr_trust_cleared = True\<rparr>
                               else Some \<lparr>sr_rc = RC_OK, sr_keyblock = st_keyblock st,
                                           sr_modified = ret_modified st,
                                           sr_trust_cleared = False\<rparr>)
                          | None \<Rightarrow>
                              Some \<lparr>sr_rc = RC_OK, sr_keyblock = st_keyblock st,
                                     sr_modified = ret_modified st,
                                     sr_trust_cleared = False\<rparr>))))"

subsection \<open>What a signer's pass does, node by node\<close>

text \<open>
  The nodes behind a user id, up to the next user id, hold a certification (class
  \<open>0x10\<close> to \<open>0x13\<close>) by the key id.
\<close>

fun has_cert_by :: "keyid \<Rightarrow> KBNODE \<Rightarrow> bool" where
  "has_cert_by k [] = False"
| "has_cert_by k (node # keyblock) =
     (if pkttype (pkt node) = PKT_USER_ID then False
      else if is_uid_cert node \<and> signed_by k node then True
      else has_cert_by k keyblock)"

text \<open>
  The keyblock with mark A cleared on every marked user id that the key id has
  certified already.
\<close>

fun unmark_certified :: "keyid \<Rightarrow> KBNODE \<Rightarrow> KBNODE" where
  "unmark_certified k [] = []"
| "unmark_certified k (node # keyblock) =
     (if pkttype (pkt node) = PKT_USER_ID \<and> has_flag node NODFLG_MARK_A
         \<and> has_cert_by k keyblock
      then clear_flag NODFLG_MARK_A node # unmark_certified k keyblock
      else node # unmark_certified k keyblock)"

text \<open>
  The keyblock with one new certification by the signer behind every marked user id
  and the signatures that follow it directly; the mark of the user id is cleared,
  and the outcomes are used in keyblock order.
\<close>

function insert_certs :: "(nat \<Rightarrow> rc_t \<times> u32) \<Rightarrow> PKT_secret_key \<Rightarrow> KBNODE \<Rightarrow> KBNODE" where
  "insert_certs outs sk [] = []"
| "insert_certs outs sk (node # keyblock) =
     (if pkttype (pkt node) = PKT_USER_ID \<and> has_flag node NODFLG_MARK_A
      then clear_flag NODFLG_MARK_A node
             # takeWhile (\<lambda>n. pkttype (pkt n) = PKT_SIGNATURE) keyblock
             @ new_kbnode (Signature (snd (make_keysig_packet (outs 0) sk 0x10)))
             # insert_certs (rest_of outs) sk
                 (dropWhile (\<lambda>n. pkttype (pkt n) = PKT_SIGNATURE) keyblock)
      else node # insert_certs outs sk keyblock)"
  by pat_completeness auto
termination
  by (relation "measure (\<lambda>(outs, sk, kb). length kb)")
     (auto simp: length_dropWhile_le less_Suc_eq_le)

text \<open>
  The user ids of a keyblock in order, each with whether it is selected: what the
  select-all-if-none rule reads.
\<close>

definition sel_uids :: "KBNODE \<Rightarrow> (PACKET \<times> bool) list" where
  "sel_uids keyblock =
     map (\<lambda>node. (pkt node, has_flag node NODFLG_SELUID))
       (filter (\<lambda>node. pkttype (pkt node) = PKT_USER_ID) keyblock)"

text \<open>
  For every user id of a keyblock in order: the number of certifications by the key
  id among the nodes behind it, up to the next user id.
\<close>

fun count_certs :: "keyid \<Rightarrow> KBNODE \<Rightarrow> nat" where
  "count_certs k [] = 0"
| "count_certs k (node # keyblock) =
     (if pkttype (pkt node) = PKT_USER_ID then 0
      else if is_uid_cert node \<and> signed_by k node then Suc (count_certs k keyblock)
      else count_certs k keyblock)"

fun cert_counts :: "keyid \<Rightarrow> KBNODE \<Rightarrow> nat list" where
  "cert_counts k [] = []"
| "cert_counts k (node # keyblock) =
     (if pkttype (pkt node) = PKT_USER_ID
      then count_certs k keyblock # cert_counts k keyblock
      else cert_counts k keyblock)"

text \<open>
  The same numbers after the user ids that are candidates (all of them, or the
  selected ones) and have no certification by the key id have got one.
\<close>

fun cert_counts_signed :: "bool \<Rightarrow> keyid \<Rightarrow> KBNODE \<Rightarrow> nat list" where
  "cert_counts_signed select_all k [] = []"
| "cert_counts_signed select_all k (node # keyblock) =
     (if pkttype (pkt node) = PKT_USER_ID
      then (if candidate select_all node \<and> count_certs k keyblock = 0
            then 1 else count_certs k keyblock) # cert_counts_signed select_all k keyblock
      else cert_counts_signed select_all k keyblock)"

text \<open>
  The user ids of a keyblock in order: whether each carries mark A; and the same
  together with the number of certifications by the key id behind it.
\<close>

definition uid_marks :: "KBNODE \<Rightarrow> bool list" where
  "uid_marks keyblock =
     map (\<lambda>node. has_flag node NODFLG_MARK_A)
       (filter (\<lambda>node. pkttype (pkt node) = PKT_USER_ID) keyblock)"

fun uid_view :: "keyid \<Rightarrow> KBNODE \<Rightarrow> (bool \<times> nat) list" where
  "uid_view k [] = []"
| "uid_view k (node # keyblock) =
     (if pkttype (pkt node) = PKT_USER_ID
      then (has_flag node NODFLG_MARK_A, count_certs k keyblock) # uid_view k keyblock
      else uid_view k keyblock)"

text \<open>
  The test "Nothing to sign with key": after the marking and the reset of the user
  ids already signed, no user id carries mark A.
\<close>

definition nothing_to_sign :: "bool \<Rightarrow> keyid \<Rightarrow> KBNODE \<Rightarrow> bool" where
  "nothing_to_sign select_all k keyblock =
     (count_uids_with_flag (unmark_signed k [] None (mark_selected select_all keyblock))
        NODFLG_MARK_A = 0)"

text \<open>The keyblock holds a primary public key.\<close>

definition has_pubkey :: "KBNODE \<Rightarrow> bool" where
  "has_pubkey kb = (\<exists>n \<in> set kb. pkttype (pkt n) = PKT_PUBLIC_KEY)"

text \<open>Example signers and runs for \<^verbatim>\<open>sign_uids\<close>.\<close>

definition ex_signer :: PKT_secret_key where
  "ex_signer = ex_sk\<lparr>keyid_from_sk := (0xC1, 0xC2)\<rparr>"

text \<open>The operator confirms and every signature is made.\<close>

definition ex_sign_env :: sign_env where
  "ex_sign_env =
     \<lparr>build_sk_list = (\<lambda>locusr. (RC_OK, [ex_signer])),
      answer_is_yes = (\<lambda>i. True),
      keysig_outcomes = (\<lambda>i. (RC_OK, 0x1000)),
      clear_trust_checked_flag = (\<lambda>pk. RC_OK)\<rparr>"

text \<open>The operator declines.\<close>

definition ex_sign_env_no :: sign_env where
  "ex_sign_env_no = ex_sign_env\<lparr>answer_is_yes := (\<lambda>i. False)\<rparr>"

text \<open>The first signature is made, the second one fails.\<close>

definition ex_sign_env_fail :: sign_env where
  "ex_sign_env_fail =
     ex_sign_env\<lparr>keysig_outcomes :=
                   (\<lambda>i. if i = 0 then (RC_OK, 0x1000) else (G10ERR_OTHER 1, 0))\<rparr>"

text \<open>The first signature production fails.\<close>

definition ex_sign_env_fail_first :: sign_env where
  "ex_sign_env_fail_first =
     ex_sign_env\<lparr>keysig_outcomes := (\<lambda>i. (G10ERR_OTHER 1, 0))\<rparr>"

text \<open>
  Two signers: the operator declines the first confirmation and gives every later
  one.
\<close>

definition ex_signer2 :: PKT_secret_key where
  "ex_signer2 = ex_sk\<lparr>keyid_from_sk := (0xD1, 0xD2)\<rparr>"

definition ex_sign_env_two :: sign_env where
  "ex_sign_env_two =
     ex_sign_env\<lparr>build_sk_list := (\<lambda>locusr. (RC_OK, [ex_signer, ex_signer2])),
                  answer_is_yes := (\<lambda>i. 0 < i)\<rparr>"

text \<open>No signer.\<close>

definition ex_sign_env_nobody :: sign_env where
  "ex_sign_env_nobody = ex_sign_env\<lparr>build_sk_list := (\<lambda>locusr. (RC_OK, []))\<rparr>"

text \<open>A public key with two user ids, none selected.\<close>

definition ex_two_uids :: KBNODE where
  "ex_two_uids =
     [ex_node (PublicKey ex_pk) 0,
      ex_node (UserId \<lparr>name = ''Alice''\<rparr>) 0,
      ex_node (ex_sig (0x11, 0x22)) 0,
      ex_node (UserId \<lparr>name = ''Bob''\<rparr>) 0,
      ex_node (ex_sig (0x11, 0x22)) 0]"

text \<open>A public key whose only user id is already certified by the signer.\<close>

definition ex_certified :: KBNODE where
  "ex_certified =
     [ex_node (PublicKey ex_pk) 0,
      ex_node (UserId \<lparr>name = ''Alice''\<rparr>) 0,
      ex_node (ex_sig (0xC1, 0xC2)) 0]"

section \<open>\<^verbatim>\<open>change_passphrase\<close>\<close>

text \<open>
  Modelled from the spec: the protection probe and the two operations on a secret
  key are collaborators (seckey-cert.c). \<open>is_secret_key_protected\<close> is \<open>-1\<close> for an
  unsupported algorithm, \<open>0\<close> for an unprotected key and positive for a protected
  one. \<open>check_secret_key\<close> decrypts the protection in place or fails, and
  \<open>protect_secret_key\<close> re-encrypts the secret material or fails; whether they fail
  is an input (\<open>outcome\<close>).
\<close>

definition is_secret_key_protected :: "PKT_secret_key \<Rightarrow> int" where
  "is_secret_key_protected sk =
     (if \<not> sk_algo_supported sk then - 1 else if is_protected sk then 1 else 0)"

definition check_secret_key :: "rc_t \<Rightarrow> PKT_secret_key \<Rightarrow> rc_t \<times> PKT_secret_key" where
  "check_secret_key outcome sk =
     (outcome, if outcome = RC_OK then sk\<lparr>is_protected := False\<rparr> else sk)"

definition protect_secret_key :: "rc_t \<Rightarrow> PKT_secret_key \<Rightarrow> rc_t \<times> PKT_secret_key" where
  "protect_secret_key outcome sk =
     (outcome, if outcome = RC_OK then sk\<lparr>is_protected := True\<rparr> else sk)"

text \<open>The fields of a \<^verbatim>\<open>DEK\<close> that \<^verbatim>\<open>change_passphrase\<close> reads.\<close>

record DEK =
  dek_algo :: nat
  dek_keylen :: nat

text \<open>
  What the operator and the collaborators do during one call: the outcomes of the
  successive calls of \<^verbatim>\<open>check_secret_key\<close> and of \<^verbatim>\<open>protect_secret_key\<close>, what
  the successive calls of \<^verbatim>\<open>passphrase_to_dek\<close> return (\<open>None\<close> is the
  \<^verbatim>\<open>NULL\<close> of a passphrase not correctly repeated), the answer to "Do you really
  want to do this?", and the options \<^verbatim>\<open>opt.s2k_mode\<close> and
  \<^verbatim>\<open>opt.s2k_digest_algo\<close>.
\<close>

record passwd_env =
  check_outcomes :: "nat \<Rightarrow> rc_t"
  protect_outcomes :: "nat \<Rightarrow> rc_t"
  passphrase_to_dek :: "DEK option list"
  empty_okay :: bool
  opt_s2k_mode :: nat
  opt_s2k_digest_algo :: nat

text \<open>
  The loop that unprotects the subkeys: it runs while \<^verbatim>\<open>rc\<close> is 0 and yields
  \<^verbatim>\<open>rc\<close>, the keyblock and the outcomes not yet used.
\<close>

fun unlock_subkeys :: "(nat \<Rightarrow> rc_t) \<Rightarrow> KBNODE \<Rightarrow> rc_t \<times> KBNODE \<times> (nat \<Rightarrow> rc_t)" where
  "unlock_subkeys outs [] = (RC_OK, [], outs)"
| "unlock_subkeys outs (node # keyblock) =
     (case pkt node of
        SecretSubkey subsk \<Rightarrow>
          (let (rc, subsk') = check_secret_key (outs 0) subsk;
               node' = node\<lparr>pkt := SecretSubkey subsk'\<rparr>
           in if rc \<noteq> RC_OK then (rc, node' # keyblock, rest_of outs)
              else (let (rc', kb', outs') = unlock_subkeys (rest_of outs) keyblock
                    in (rc', node' # kb', outs')))
      | _ \<Rightarrow>
          (let (rc', kb', outs') = unlock_subkeys outs keyblock
           in (rc', node # kb', outs')))"

text \<open>The loop that protects the subkeys under the new key, likewise.\<close>

fun protect_subkeys ::
  "DEK \<Rightarrow> STRING2KEY \<Rightarrow> (nat \<Rightarrow> rc_t) \<Rightarrow> KBNODE \<Rightarrow> rc_t \<times> KBNODE" where
  "protect_subkeys dek s2k outs [] = (RC_OK, [])"
| "protect_subkeys dek s2k outs (node # keyblock) =
     (case pkt node of
        SecretSubkey subsk \<Rightarrow>
          (let (rc, subsk') = protect_secret_key (outs 0)
                                (subsk\<lparr>protect_algo := dek_algo dek, protect_s2k := s2k\<rparr>);
               node' = node\<lparr>pkt := SecretSubkey subsk'\<rparr>
           in if rc \<noteq> RC_OK then (rc, node' # keyblock)
              else (let (rc', kb') = protect_subkeys dek s2k (rest_of outs) keyblock
                    in (rc', node' # kb')))
      | _ \<Rightarrow>
          (let (rc', kb') = protect_subkeys dek s2k outs keyblock
           in (rc', node # kb')))"

text \<open>
  The \<^verbatim>\<open>for(;;)\<close> loop that asks for the new passphrase, over what
  \<^verbatim>\<open>passphrase_to_dek\<close> returns call by call; \<open>p\<close> is the position of the primary
  secret key \<open>sk\<close>. It yields \<^verbatim>\<open>rc\<close>, \<^verbatim>\<open>changed\<close> and the keyblock. The
  loop goes on for as long as the passphrase is not correctly repeated: \<open>None\<close>
  stands for a loop that has not ended when the given answers are used up.
\<close>

fun new_passphrase ::
  "passwd_env \<Rightarrow> DEK option list \<Rightarrow> nat \<Rightarrow> PKT_secret_key \<Rightarrow> KBNODE
     \<Rightarrow> (rc_t \<times> int \<times> KBNODE) option" where
  "new_passphrase env [] p sk keyblock = None"
| "new_passphrase env (None # deks) p sk keyblock = new_passphrase env deks p sk keyblock"
| "new_passphrase env (Some dek # deks) p sk keyblock =
     (if dek_keylen dek = 0
      then Some (RC_OK, if empty_okay env then 1 else 0, keyblock)
      else (let s2k = \<lparr>s2k_mode = opt_s2k_mode env, s2k_hash_algo = opt_s2k_digest_algo env\<rparr>;
                (rc, sk') = protect_secret_key (protect_outcomes env 0)
                              (sk\<lparr>protect_algo := dek_algo dek, protect_s2k := s2k\<rparr>);
                kb1 = keyblock[p := (keyblock ! p)\<lparr>pkt := SecretKey sk'\<rparr>];
                (rc', kb2) = (if rc = RC_OK
                              then protect_subkeys dek s2k (rest_of (protect_outcomes env)) kb1
                              else (rc, kb1))
            in Some (rc', if rc' \<noteq> RC_OK then 0 else 1, kb2)))"

text \<open>
  \<^verbatim>\<open>change_passphrase\<close>: its return value \<^verbatim>\<open>changed && !rc\<close> and the keyblock.
\<close>

definition change_passphrase :: "passwd_env \<Rightarrow> KBNODE \<Rightarrow> (bool \<times> KBNODE) option" where
  "change_passphrase env keyblock =
     (case find_kbnode keyblock PKT_SECRET_KEY of
        None \<Rightarrow> Some (False, keyblock)
      | Some p \<Rightarrow>
          (case pkt (keyblock ! p) of
             SecretKey sk \<Rightarrow>
               (let prot = is_secret_key_protected sk;
                    (rc, sk1, outs1) =
                      (if prot = - 1 then (G10ERR_PUBKEY_ALGO, sk, check_outcomes env)
                       else if prot = 0 then (RC_OK, sk, check_outcomes env)
                       else (let (rc, sk') = check_secret_key (check_outcomes env 0) sk
                             in (rc, sk', rest_of (check_outcomes env))));
                    kb1 = keyblock[p := (keyblock ! p)\<lparr>pkt := SecretKey sk1\<rparr>];
                    (rc2, kb2) = (if rc = RC_OK
                                  then (let (r, kb, outs) = unlock_subkeys outs1 kb1 in (r, kb))
                                  else (rc, kb1))
                in if rc2 \<noteq> RC_OK then Some (False, kb2)
                   else (case new_passphrase env (passphrase_to_dek env) p sk1 kb2 of
                           None \<Rightarrow> None
                         | Some (rc3, changed, kb3) \<Rightarrow>
                             Some (changed \<noteq> 0 \<and> rc3 = RC_OK, kb3)))
           | _ \<Rightarrow> Some (False, keyblock)))"

text \<open>A node with its secret subkey, if it holds one, marked unprotected.\<close>

definition unlock_node :: "kbnode \<Rightarrow> kbnode" where
  "unlock_node n =
     (case pkt n of
        SecretSubkey s \<Rightarrow> n\<lparr>pkt := SecretSubkey (s\<lparr>is_protected := False\<rparr>)\<rparr>
      | _ \<Rightarrow> n)"

text \<open>Every secret subkey of a keyblock is marked unprotected.\<close>

definition subkeys_unprotected :: "KBNODE \<Rightarrow> bool" where
  "subkeys_unprotected keyblock =
     list_all (\<lambda>node. case pkt node of SecretSubkey sk \<Rightarrow> \<not> is_protected sk | _ \<Rightarrow> True)
       keyblock"

text \<open>The primary secret key, the first secret key node, is marked unprotected.\<close>

definition primary_unprotected :: "KBNODE \<Rightarrow> bool" where
  "primary_unprotected keyblock =
     (case find_kbnode keyblock PKT_SECRET_KEY of
        None \<Rightarrow> False
      | Some p \<Rightarrow> (case pkt (keyblock ! p) of SecretKey sk \<Rightarrow> \<not> is_protected sk
                                              | _ \<Rightarrow> False))"

section \<open>The \<^verbatim>\<open>deluid\<close> command of \<^verbatim>\<open>keyedit_menu\<close>\<close>

text \<open>
  The variables of the menu loop that the command reads and writes: the two
  keyblocks (\<^verbatim>\<open>sec_keyblock\<close> is \<^verbatim>\<open>NULL\<close>, the empty list, when there is no
  secret key), \<^verbatim>\<open>modified\<close>, \<^verbatim>\<open>sec_modified\<close> and \<^verbatim>\<open>redisplay\<close>.
\<close>

record session =
  s_keyblock :: KBNODE
  s_sec_keyblock :: KBNODE
  s_modified :: bool
  s_sec_modified :: bool
  s_redisplay :: bool

text \<open>
  \<^verbatim>\<open>case cmdDELUID\<close>. \<open>answer\<close> is what the operator answers should
  \<^verbatim>\<open>cpr_get_answer_is_yes\<close> ask. The result is the session and what was printed;
  \<open>None\<close> as for \<^verbatim>\<open>menu_deluid\<close>.
\<close>

definition cmd_deluid :: "bool \<Rightarrow> session \<Rightarrow> (session \<times> message list) option" where
  "cmd_deluid answer s =
     (let n1 = count_selected_uids (s_keyblock s)
      in if n1 = 0 then Some (s, [Must_select_at_least_one_uid])
         else if count_uids (s_keyblock s) - n1 < 1 then Some (s, [Cant_delete_last_uid])
         else if answer
         then (case menu_deluid (s_keyblock s) (s_sec_keyblock s) of
                 None \<Rightarrow> None
               | Some (pub', sec') \<Rightarrow>
                   Some (s\<lparr>s_keyblock := pub', s_sec_keyblock := sec',
                            s_redisplay := True, s_modified := True,
                            s_sec_modified :=
                              (if s_sec_keyblock s \<noteq> [] then True else s_sec_modified s)\<rparr>,
                         []))
         else Some (s, []))"

text \<open>\<^verbatim>\<open>case cmdPASSWD\<close>.\<close>

definition cmd_passwd :: "passwd_env \<Rightarrow> session \<Rightarrow> session option" where
  "cmd_passwd env s =
     (case change_passphrase env (s_sec_keyblock s) of
        None \<Rightarrow> None
      | Some (changed, sec') \<Rightarrow>
          Some (s\<lparr>s_sec_keyblock := sec',
                   s_sec_modified := (if changed then True else s_sec_modified s)\<rparr>))"

text \<open>
  An operator who enters the current passphrase correctly, fails once to repeat the
  new one and then enters an empty passphrase twice and confirms.
\<close>

definition ex_passwd_env :: passwd_env where
  "ex_passwd_env =
     \<lparr>check_outcomes = (\<lambda>i. RC_OK), protect_outcomes = (\<lambda>i. RC_OK),
      passphrase_to_dek = [None, Some \<lparr>dek_algo = 4, dek_keylen = 0\<rparr>],
      empty_okay = True, opt_s2k_mode = 1, opt_s2k_digest_algo = 3\<rparr>"

definition ex_session :: session where
  "ex_session = \<lparr>s_keyblock = ex_pub, s_sec_keyblock = ex_sec, s_modified = False,
                  s_sec_modified = False, s_redisplay = False\<rparr>"

section \<open>Flag words\<close>

lemma single_bit_toggle:
  fixes f :: u32
  shows "(if f AND push_bit k 1 \<noteq> 0 then f AND NOT (push_bit k 1) else f OR push_bit k 1)
           = f XOR push_bit k 1"
  apply (rule bit_eqI)
  apply (auto simp: bit_simps and_exp_eq_0_iff_not_bit)
  done

lemma clear_bit_xor:
  fixes f :: u32
  shows "f AND push_bit k 1 \<noteq> 0 \<Longrightarrow> f AND NOT (push_bit k 1) = f XOR push_bit k 1"
  using single_bit_toggle[of f k] by (simp only: if_True split: if_splits)

lemma set_bit_xor:
  fixes f :: u32
  shows "f AND push_bit k 1 = 0 \<Longrightarrow> f OR push_bit k 1 = f XOR push_bit k 1"
  using single_bit_toggle[of f k] by (simp only: simp_thms if_False split: if_splits)

lemma toggle_code:
  "(if has_flag n NODFLG_SELUID then clear_flag NODFLG_SELUID n else set_flag NODFLG_SELUID n)
    = n\<lparr>flag := flag n XOR NODFLG_SELUID\<rparr>"
proof (cases "flag n AND push_bit 8 1 = 0")
  case False
  from clear_bit_xor[OF False] False show ?thesis
    unfolding has_flag_def clear_flag_def NODFLG_SELUID_def
    by (simp only: simp_thms if_True)
next
  case True
  from set_bit_xor[OF True] True show ?thesis
    unfolding has_flag_def set_flag_def NODFLG_SELUID_def
    by (simp only: simp_thms if_False)
qed

lemma has_flag_clear_flag [simp]: "\<not> has_flag (clear_flag f n) f"
  by (simp add: has_flag_def clear_flag_def word_bw_assocs)

lemma pkt_clear_flag [simp]: "pkt (clear_flag f n) = pkt n"
  by (simp add: clear_flag_def)

lemma pkt_set_flag [simp]: "pkt (set_flag f n) = pkt n"
  by (simp add: set_flag_def)

lemma deleted_clear_flag [simp]: "deleted (clear_flag f n) = deleted n"
  by (simp add: clear_flag_def)

lemma deleted_set_flag [simp]: "deleted (set_flag f n) = deleted n"
  by (simp add: set_flag_def)

lemma has_flag_bit: "has_flag n (push_bit k 1) = bit (flag n) k"
  by (simp add: has_flag_def and_exp_eq_0_iff_not_bit)

lemma has_flag_set_bit:
  "has_flag (set_flag (push_bit k 1) n) (push_bit j 1)
     = (has_flag n (push_bit j 1) \<or> (j = k \<and> k < 32))"
  unfolding has_flag_bit by (auto simp: set_flag_def bit_simps)

lemma has_flag_clear_bit:
  "has_flag (clear_flag (push_bit k 1) n) (push_bit j 1)
     = (has_flag n (push_bit j 1) \<and> j \<noteq> k)"
  unfolding has_flag_bit by (auto simp: clear_flag_def bit_simps dest: bit_imp_le_length)

lemma clear_bit_unset:
  "\<not> has_flag n (push_bit k 1) \<Longrightarrow> clear_flag (push_bit k 1) n = n"
proof -
  assume "\<not> has_flag n (push_bit k 1)"
  then have "\<not> bit (flag n) k" unfolding has_flag_bit .
  then have "flag n AND NOT (push_bit k 1) = flag n"
    by (intro bit_eqI) (auto simp: bit_simps)
  then show ?thesis by (simp add: clear_flag_def)
qed

lemma marked_set [simp]: "has_flag (set_flag NODFLG_MARK_A n) NODFLG_MARK_A"
  unfolding NODFLG_MARK_A_def has_flag_set_bit by simp

lemma seluid_set [simp]:
  "has_flag (set_flag NODFLG_MARK_A n) NODFLG_SELUID = has_flag n NODFLG_SELUID"
  unfolding NODFLG_MARK_A_def NODFLG_SELUID_def has_flag_set_bit by simp

lemma seluid_clear [simp]:
  "has_flag (clear_flag NODFLG_MARK_A n) NODFLG_SELUID = has_flag n NODFLG_SELUID"
  unfolding NODFLG_MARK_A_def NODFLG_SELUID_def has_flag_clear_bit by simp

lemma clear_flag_idem [simp]: "clear_flag f (clear_flag f n) = clear_flag f n"
  by (simp add: clear_flag_def word_bw_assocs)

lemma clear_unmarked: "\<not> has_flag n NODFLG_MARK_A \<Longrightarrow> clear_flag NODFLG_MARK_A n = n"
  unfolding NODFLG_MARK_A_def by (rule clear_bit_unset)

section \<open>Selecting a user id\<close>

lemma count_uids_nonneg: "0 \<le> count_uids kb"
  by (induction kb) auto

lemma find_uid_index_iff:
  "find_uid_index i index kb \<longleftrightarrow> i < index \<and> index \<le> i + count_uids kb"
proof (induction kb arbitrary: i)
  case Nil
  show ?case by simp
next
  case (Cons n kb)
  have nn: "0 \<le> count_uids kb" by (rule count_uids_nonneg)
  show ?case
  proof (cases "pkttype (pkt n) = PKT_USER_ID")
    case True
    have "find_uid_index i index (n # kb) = (i + 1 = index \<or> find_uid_index (i + 1) index kb)"
      using True by simp
    also have "\<dots> = (i + 1 = index \<or> (i + 1 < index \<and> index \<le> i + 1 + count_uids kb))"
      by (simp only: Cons.IH)
    also have "\<dots> = (i < index \<and> index \<le> i + (1 + count_uids kb))"
      using nn by arith
    finally show ?thesis using True by simp
  next
    case False
    then show ?thesis using Cons.IH[of i] by simp
  qed
qed

lemma length_toggle_uid: "length (toggle_uid i index kb) = length kb"
  by (induction kb arbitrary: i) auto

lemma toggle_uid_nth:
  "j < length kb \<Longrightarrow>
   toggle_uid i index kb ! j =
     (if is_uid (kb ! j) \<and> count_uids (take (Suc j) kb) = index - i
      then (kb ! j)\<lparr>flag := flag (kb ! j) XOR NODFLG_SELUID\<rparr> else kb ! j)"
proof (induction kb arbitrary: i j)
  case Nil
  then show ?case by simp
next
  case (Cons n kb)
  show ?case
  proof (cases j)
    case 0
    show ?thesis
    proof (cases "pkttype (pkt n) = PKT_USER_ID")
      case True
      have "(1 = index - i) = (i + 1 = index)" by arith
      with True 0 show ?thesis by (simp add: is_uid_def toggle_code)
    next
      case False
      with 0 show ?thesis by (simp add: is_uid_def)
    qed
  next
    case (Suc j')
    with Cons.prems have j': "j' < length kb" by simp
    show ?thesis
    proof (cases "pkttype (pkt n) = PKT_USER_ID")
      case True
      have eq: "(1 + count_uids (take (Suc j') kb) = index - i)
                  = (count_uids (take (Suc j') kb) = index - (i + 1))"
        by arith
      have "toggle_uid i index (n # kb) ! j = toggle_uid (i + 1) index kb ! j'"
        using True Suc by simp
      also note Cons.IH[OF j', of "i + 1"]
      also have "count_uids (take (Suc j') kb) = index - (i + 1)
           \<longleftrightarrow> count_uids (take (Suc j) (n # kb)) = index - i"
        using True Suc eq by simp
      finally show ?thesis using Suc by simp
    next
      case False
      have "toggle_uid i index (n # kb) ! j = toggle_uid i index kb ! j'"
        using False Suc by simp
      also note Cons.IH[OF j', of i]
      also have "count_uids (take (Suc j') kb) = index - i
           \<longleftrightarrow> count_uids (take (Suc j) (n # kb)) = index - i"
        using False Suc by simp
      finally show ?thesis using Suc by simp
    qed
  qed
qed

lemma reset_all_uid_map:
  "reset_all_uid kb = map (\<lambda>n. if is_uid n then clear_flag NODFLG_SELUID n else n) kb"
  by (induction kb) (simp_all add: is_uid_def)

text \<open>
  Claim C9. \<^verbatim>\<open>menu_select_uid\<close> with index 0 clears \<open>SEL_UID\<close> on every user id
  node, changes no other node and returns true. With an index \<open>N\<close> between 1 and the
  number of user ids it flips \<open>SEL_UID\<close> on the \<open>N\<close>-th user id node in keyblock
  order (the user id node that has \<open>N\<close> user ids up to and including itself), leaves
  every other node as it was and returns true. With \<open>N\<close> above the number of user
  ids (or below zero) it prints "No user id with index N", changes nothing and
  returns false.
\<close>

theorem menu_select_uid_selects:
  "menu_select_uid kb 0 =
      (map (\<lambda>n. if is_uid n then clear_flag NODFLG_SELUID n else n) kb, [], True)
   \<and> (\<forall>n \<in> set (fst (menu_select_uid kb 0)). is_uid n \<longrightarrow> \<not> has_flag n NODFLG_SELUID)
   \<and> (1 \<le> N \<and> N \<le> count_uids kb \<longrightarrow>
        snd (menu_select_uid kb N) = ([], True)
        \<and> length (fst (menu_select_uid kb N)) = length kb
        \<and> (\<forall>j < length kb.
              fst (menu_select_uid kb N) ! j =
                (if is_uid (kb ! j) \<and> count_uids (take (Suc j) kb) = N
                 then (kb ! j)\<lparr>flag := flag (kb ! j) XOR NODFLG_SELUID\<rparr>
                 else kb ! j)))
   \<and> (count_uids kb < N \<or> N < 0 \<longrightarrow>
        menu_select_uid kb N = (kb, [No_user_id_with_index N], False))"
proof -
  have zero: "menu_select_uid kb 0 =
      (map (\<lambda>n. if is_uid n then clear_flag NODFLG_SELUID n else n) kb, [], True)"
    by (simp add: menu_select_uid_def reset_all_uid_map)
  have cleared: "\<forall>n \<in> set (fst (menu_select_uid kb 0)). is_uid n \<longrightarrow> \<not> has_flag n NODFLG_SELUID"
    unfolding zero by (auto simp: is_uid_def)
  have valid: "snd (menu_select_uid kb N) = ([], True)
        \<and> length (fst (menu_select_uid kb N)) = length kb
        \<and> (\<forall>j < length kb.
              fst (menu_select_uid kb N) ! j =
                (if is_uid (kb ! j) \<and> count_uids (take (Suc j) kb) = N
                 then (kb ! j)\<lparr>flag := flag (kb ! j) XOR NODFLG_SELUID\<rparr>
                 else kb ! j))"
    if "1 \<le> N" "N \<le> count_uids kb"
  proof -
    from that have found: "find_uid_index 0 N kb" and nz: "N \<noteq> 0"
      by (simp_all add: find_uid_index_iff)
    then have eq: "menu_select_uid kb N = (toggle_uid 0 N kb, [], True)"
      by (simp add: menu_select_uid_def)
    show ?thesis
      unfolding eq using toggle_uid_nth[of _ kb 0 N]
      by (simp add: length_toggle_uid)
  qed
  have invalid: "menu_select_uid kb N = (kb, [No_user_id_with_index N], False)"
    if "count_uids kb < N \<or> N < 0"
  proof -
    have "0 \<le> count_uids kb" by (rule count_uids_nonneg)
    with that have "\<not> find_uid_index 0 N kb" and "N \<noteq> 0"
      by (auto simp: find_uid_index_iff)
    then show ?thesis by (simp add: menu_select_uid_def)
  qed
  from zero cleared valid invalid show ?thesis by blast
qed

lemma ex_keyblock_count_uids: "count_uids ex_keyblock = 2"
  by (simp add: ex_keyblock_def ex_node_def ex_sig_def)

theorem menu_select_uid_selects_witness:
  "(1::int) \<le> 1 \<and> 1 \<le> count_uids ex_keyblock \<and> count_uids ex_keyblock < 3
   \<and> snd (menu_select_uid ex_keyblock 1) = ([], True)
   \<and> flag (fst (menu_select_uid ex_keyblock 1) ! 1) = NODFLG_SELUID
   \<and> fst (menu_select_uid ex_keyblock 1) ! 4 = ex_keyblock ! 4
   \<and> menu_select_uid ex_keyblock 3 = (ex_keyblock, [No_user_id_with_index 3], False)
   \<and> \<not> has_flag (fst (menu_select_uid ex_keyblock 0) ! 4) NODFLG_SELUID"
proof -
  have len: "length ex_keyblock = 6"
    by (simp add: ex_keyblock_def)
  have c1: "count_uids (take (Suc 1) ex_keyblock) = 1"
    and c4: "count_uids (take (Suc 4) ex_keyblock) = 2"
    by (simp_all add: ex_keyblock_def ex_node_def ex_sig_def)
  have u1: "is_uid (ex_keyblock ! 1)" and u4: "is_uid (ex_keyblock ! 4)"
    by (simp_all add: ex_keyblock_def is_uid_def ex_node_def)
  note a = menu_select_uid_selects[of ex_keyblock 1]
  note b = menu_select_uid_selects[of ex_keyblock 3]
  from a have a1: "snd (menu_select_uid ex_keyblock 1) = ([], True)"
    and a2: "\<forall>j < length ex_keyblock.
              fst (menu_select_uid ex_keyblock 1) ! j =
                (if is_uid (ex_keyblock ! j) \<and> count_uids (take (Suc j) ex_keyblock) = 1
                 then (ex_keyblock ! j)\<lparr>flag := flag (ex_keyblock ! j) XOR NODFLG_SELUID\<rparr>
                 else ex_keyblock ! j)"
    by (simp_all add: ex_keyblock_count_uids)
  have "flag (ex_keyblock ! 1) = 0"
    by (simp add: ex_keyblock_def ex_node_def)
  with a2 len u1 c1 have f1: "flag (fst (menu_select_uid ex_keyblock 1) ! 1) = NODFLG_SELUID"
    by simp
  from a2 len c4 have f4: "fst (menu_select_uid ex_keyblock 1) ! 4 = ex_keyblock ! 4"
    by simp
  from b have b1: "menu_select_uid ex_keyblock 3 = (ex_keyblock, [No_user_id_with_index 3], False)"
    by (simp add: ex_keyblock_count_uids)
  from a have "\<forall>n \<in> set (fst (menu_select_uid ex_keyblock 0)). is_uid n \<longrightarrow> \<not> has_flag n NODFLG_SELUID"
    by blast
  moreover have "fst (menu_select_uid ex_keyblock 0) ! 4 \<in> set (fst (menu_select_uid ex_keyblock 0))"
    using a len by simp
  moreover have "is_uid (fst (menu_select_uid ex_keyblock 0) ! 4)"
    using a len u4 by (simp add: is_uid_def)
  ultimately have z: "\<not> has_flag (fst (menu_select_uid ex_keyblock 0) ! 4) NODFLG_SELUID"
    by blast
  from a1 f1 f4 b1 z show ?thesis
    by (simp add: ex_keyblock_count_uids)
qed

section \<open>Checking the key signatures\<close>

lemma length_keysig_loop:
  "length (fst (keysig_loop cks os i kb st)) = length kb"
  by (induction kb arbitrary: i st) (simp_all add: case_prod_beta Let_def)

lemma selected_visit_uid:
  "selected (visit_uid os node st) = (if os then has_flag node NODFLG_SELUID else selected st)"
  by (simp add: visit_uid_def Let_def)

lemma selected_count_sig [simp]: "selected (count_sig rc sf st) = selected st"
  by (cases rc) simp_all

lemma keysig_loop_classified:
  "j < length kb \<Longrightarrow>
   fst (keysig_loop cks os i kb st) ! j
     = (if classified os (selected st) kb ! j then set_sig_flag (fst (cks (i + j))) (kb ! j)
        else kb ! j)"
proof (induction kb arbitrary: i st j)
  case Nil
  then show ?case by simp
next
  case (Cons n kb)
  show ?case
  proof (cases j)
    case 0
    then show ?thesis by (simp add: case_prod_beta Let_def)
  next
    case (Suc j')
    with Cons.prems have j': "j' < length kb" by simp
    have ij: "Suc i + j' = i + j" using Suc by simp
    note ih = Cons.IH[OF j', of "Suc i", unfolded ij]
    show ?thesis
      using Suc ih[of st] ih[of "visit_uid os n st"]
        ih[of "count_sig (fst (cks i)) (snd (cks i)) st"]
      by (simp add: case_prod_beta Let_def selected_visit_uid)
  qed
qed

lemma classified_all:
  "j < length kb \<Longrightarrow>
   classified False True kb ! j = (\<not> deleted (kb ! j) \<and> is_uid_cert (kb ! j))"
proof (induction kb arbitrary: j)
  case Nil
  then show ?case by simp
next
  case (Cons n kb)
  have "is_uid_cert n \<Longrightarrow> pkttype (pkt n) \<noteq> PKT_USER_ID"
    by (cases "pkt n") (simp_all add: is_uid_cert_def)
  with Cons show ?case by (cases j) auto
qed


lemma at_most_one_set_sig_flag: "at_most_one_err (set_sig_flag rc n)"
  by (cases rc) (simp_all add: at_most_one_err_def has_flag_def
      NODFLG_BADSIG_def NODFLG_NOKEY_def NODFLG_SIGERR_def word_bw_assocs)

lemma set_sig_flag_ok_other:
  "f AND (NODFLG_BADSIG OR NODFLG_NOKEY OR NODFLG_SIGERR) = 0 \<Longrightarrow>
   flag (set_sig_flag RC_OK n) AND f = flag n AND f"
  apply (simp add: NODFLG_BADSIG_def NODFLG_NOKEY_def NODFLG_SIGERR_def)
  apply (rule bit_eqI)
  apply (simp add: bit_simps bit_eq_iff)
  apply (auto simp: bit_simps)
  done

lemma set_sig_flag_ok_errs:
  "\<not> has_flag (set_sig_flag RC_OK n) NODFLG_BADSIG"
  "\<not> has_flag (set_sig_flag RC_OK n) NODFLG_NOKEY"
  "\<not> has_flag (set_sig_flag RC_OK n) NODFLG_SIGERR"
  by (simp_all add: has_flag_def NODFLG_BADSIG_def NODFLG_NOKEY_def NODFLG_SIGERR_def
      word_bw_assocs)

lemma set_sig_flag_error_word:
  "rc \<noteq> RC_OK \<Longrightarrow>
   flag (set_sig_flag rc n) =
     (if rc = G10ERR_BAD_SIGN then NODFLG_BADSIG
      else if rc = G10ERR_NO_PUBKEY then NODFLG_NOKEY else NODFLG_SIGERR)"
  by (cases rc) simp_all

lemma set_sig_flag_error_others:
  "rc \<noteq> RC_OK \<Longrightarrow>
   \<not> has_flag (set_sig_flag rc n) NODFLG_MARK_A
   \<and> \<not> has_flag (set_sig_flag rc n) NODFLG_SELUID
   \<and> \<not> has_flag (set_sig_flag rc n) NODFLG_SELKEY"
  by (cases rc) (simp_all add: has_flag_def NODFLG_BADSIG_def NODFLG_NOKEY_def
      NODFLG_SIGERR_def NODFLG_MARK_A_def NODFLG_SELUID_def NODFLG_SELKEY_def)

text \<open>
  Claim C10. \<^verbatim>\<open>check_all_keysigs\<close> leaves every node in its place. The node of a
  signature that the walk classifies is the node after the \<^verbatim>\<open>switch\<close> on the
  result of \<^verbatim>\<open>check_key_signature\<close> for it, and every other node is as it was;
  when all user ids are checked the classified signatures are the live
  certifications of user ids. For a bad signature, a missing key and any other
  error that \<^verbatim>\<open>switch\<close> assigns the flag word: it is exactly \<open>BAD_SIG\<close>,
  \<open>NO_KEY\<close> or \<open>SIG_ERR\<close>, so \<open>MARK_A\<close>, \<open>SEL_UID\<close> and \<open>SEL_KEY\<close> are
  cleared. Only for the result ok the word is kept, with the three error flags masked
  out: every flag outside these three is as before. A classified node has at most
  one of the three error flags, and if no node had two of them before the walk then
  none has two after it.
\<close>

theorem check_all_keysigs_flag_word:
  "length (fst (check_all_keysigs cks kb os)) = length kb
   \<and> (\<forall>j < length kb.
         fst (check_all_keysigs cks kb os) ! j
           = (if classified os (\<not> os) kb ! j then set_sig_flag (fst (cks j)) (kb ! j)
              else kb ! j))
   \<and> (\<forall>j < length kb.
         classified False True kb ! j = (\<not> deleted (kb ! j) \<and> is_uid_cert (kb ! j)))
   \<and> (rc \<noteq> RC_OK \<longrightarrow>
         flag (set_sig_flag rc n) =
           (if rc = G10ERR_BAD_SIGN then NODFLG_BADSIG
            else if rc = G10ERR_NO_PUBKEY then NODFLG_NOKEY else NODFLG_SIGERR)
         \<and> \<not> has_flag (set_sig_flag rc n) NODFLG_MARK_A
         \<and> \<not> has_flag (set_sig_flag rc n) NODFLG_SELUID
         \<and> \<not> has_flag (set_sig_flag rc n) NODFLG_SELKEY)
   \<and> flag (set_sig_flag RC_OK n) =
         flag n AND NOT (NODFLG_BADSIG OR NODFLG_NOKEY OR NODFLG_SIGERR)
   \<and> (f AND (NODFLG_BADSIG OR NODFLG_NOKEY OR NODFLG_SIGERR) = 0 \<longrightarrow>
         flag (set_sig_flag RC_OK n) AND f = flag n AND f)
   \<and> \<not> has_flag (set_sig_flag RC_OK n) NODFLG_BADSIG
   \<and> \<not> has_flag (set_sig_flag RC_OK n) NODFLG_NOKEY
   \<and> \<not> has_flag (set_sig_flag RC_OK n) NODFLG_SIGERR
   \<and> at_most_one_err (set_sig_flag rc n)
   \<and> ((\<forall>m \<in> set kb. at_most_one_err m) \<longrightarrow>
        (\<forall>m \<in> set (fst (check_all_keysigs cks kb os)). at_most_one_err m))"
proof -
  let ?kb' = "fst (check_all_keysigs cks kb os)"
  let ?st = "\<lparr>inv_sigs = 0, no_key = 0, oth_err = 0, has_selfsig = False,
                mis_selfsig = 0, selected = \<not> os, anyuid = False\<rparr>"
  have eq: "?kb' = fst (keysig_loop cks os 0 kb ?st)"
    by (simp add: check_all_keysigs_def case_prod_beta Let_def)
  have len: "length ?kb' = length kb"
    unfolding eq by (rule length_keysig_loop)
  have nth: "?kb' ! j = (if classified os (\<not> os) kb ! j
                         then set_sig_flag (fst (cks j)) (kb ! j) else kb ! j)"
    if "j < length kb" for j
    unfolding eq using keysig_loop_classified[OF that, of cks os 0 ?st] by simp
  have cls: "classified False True kb ! j = (\<not> deleted (kb ! j) \<and> is_uid_cert (kb ! j))"
    if "j < length kb" for j
    using that by (rule classified_all)
  have pres: "at_most_one_err m" if all: "\<forall>m \<in> set kb. at_most_one_err m"
    and m: "m \<in> set ?kb'" for m
  proof -
    from m obtain j where j: "j < length ?kb'" and mj: "m = ?kb' ! j"
      by (auto simp: in_set_conv_nth)
    from j len have jk: "j < length kb" by simp
    then have "kb ! j \<in> set kb" by simp
    with all have "at_most_one_err (kb ! j)" by blast
    with nth[OF jk] mj show ?thesis
      by (auto simp: at_most_one_set_sig_flag split: if_splits)
  qed
  have err: "flag (set_sig_flag rc n) =
           (if rc = G10ERR_BAD_SIGN then NODFLG_BADSIG
            else if rc = G10ERR_NO_PUBKEY then NODFLG_NOKEY else NODFLG_SIGERR)
         \<and> \<not> has_flag (set_sig_flag rc n) NODFLG_MARK_A
         \<and> \<not> has_flag (set_sig_flag rc n) NODFLG_SELUID
         \<and> \<not> has_flag (set_sig_flag rc n) NODFLG_SELKEY" if "rc \<noteq> RC_OK"
    using set_sig_flag_error_word[OF that, of n] set_sig_flag_error_others[OF that, of n]
    by blast
  have ok: "flag (set_sig_flag RC_OK n) =
         flag n AND NOT (NODFLG_BADSIG OR NODFLG_NOKEY OR NODFLG_SIGERR)"
    by simp
  from len nth cls pres err ok set_sig_flag_ok_other[of f n] set_sig_flag_ok_errs[of n]
    at_most_one_set_sig_flag[of rc n]
  show ?thesis by blast
qed

theorem check_all_keysigs_flag_word_witness:
  "G10ERR_BAD_SIGN \<noteq> RC_OK
   \<and> NODFLG_SELUID AND (NODFLG_BADSIG OR NODFLG_NOKEY OR NODFLG_SIGERR) = 0
   \<and> list_all at_most_one_err ex_keyblock
   \<and> length ex_keyblock = 6
   \<and> classified False True ex_keyblock = [False, False, True, True, False, True]
   \<and> classified True False ex_keyblock = [False, False, False, False, False, True]
   \<and> has_flag (ex_keyblock ! 3) NODFLG_MARK_A
   \<and> fst (check_all_keysigs ex_check ex_keyblock False) ! 3
        = set_sig_flag G10ERR_BAD_SIGN (ex_keyblock ! 3)
   \<and> fst (check_all_keysigs ex_check ex_keyblock True) ! 3 = ex_keyblock ! 3
   \<and> flag (set_sig_flag G10ERR_BAD_SIGN (ex_keyblock ! 3)) = NODFLG_BADSIG
   \<and> \<not> has_flag (set_sig_flag G10ERR_BAD_SIGN (ex_keyblock ! 3)) NODFLG_MARK_A
   \<and> flag (set_sig_flag RC_OK (ex_keyblock ! 4)) AND NODFLG_SELUID
        = flag (ex_keyblock ! 4) AND NODFLG_SELUID
   \<and> list_all at_most_one_err (fst (check_all_keysigs ex_check ex_keyblock False))"
proof -
  note t = check_all_keysigs_flag_word[of ex_check ex_keyblock False G10ERR_BAD_SIGN
      "ex_keyblock ! 3" NODFLG_SELUID]
  note t' = check_all_keysigs_flag_word[of ex_check ex_keyblock True G10ERR_BAD_SIGN
      "ex_keyblock ! 3" NODFLG_SELUID]
  note u = check_all_keysigs_flag_word[of ex_check ex_keyblock False G10ERR_BAD_SIGN
      "ex_keyblock ! 4" NODFLG_SELUID]
  have disj: "NODFLG_SELUID AND (NODFLG_BADSIG OR NODFLG_NOKEY OR NODFLG_SIGERR) = 0"
    by (simp add: NODFLG_SELUID_def NODFLG_BADSIG_def NODFLG_NOKEY_def NODFLG_SIGERR_def)
  have before: "list_all at_most_one_err ex_keyblock"
    by (simp add: ex_keyblock_def ex_node_def at_most_one_err_def has_flag_def
        NODFLG_SELUID_def NODFLG_MARK_A_def NODFLG_BADSIG_def NODFLG_NOKEY_def
        NODFLG_SIGERR_def)
  have l: "length ex_keyblock = 6"
    by (simp add: ex_keyblock_def)
  have c: "classified False True ex_keyblock = [False, False, True, True, False, True]"
    and c': "classified True False ex_keyblock = [False, False, False, False, False, True]"
    by (simp_all add: ex_keyblock_def ex_node_def ex_sig_def is_uid_cert_def has_flag_def
        NODFLG_SELUID_def)
  have marked: "has_flag (ex_keyblock ! 3) NODFLG_MARK_A"
    by (simp add: ex_keyblock_def ex_node_def has_flag_def NODFLG_MARK_A_def NODFLG_NOKEY_def)
  have o: "fst (ex_check 3) = G10ERR_BAD_SIGN"
    by (simp add: ex_check_def)
  from t have "\<forall>j < length ex_keyblock.
         fst (check_all_keysigs ex_check ex_keyblock False) ! j
           = (if classified False (\<not> False) ex_keyblock ! j
              then set_sig_flag (fst (ex_check j)) (ex_keyblock ! j) else ex_keyblock ! j)"
    by (rule conjunct1[OF conjunct2])
  from this[rule_format, of 3] have third:
    "fst (check_all_keysigs ex_check ex_keyblock False) ! 3
        = set_sig_flag G10ERR_BAD_SIGN (ex_keyblock ! 3)"
    by (simp add: l c o)
  from t' have "\<forall>j < length ex_keyblock.
         fst (check_all_keysigs ex_check ex_keyblock True) ! j
           = (if classified True (\<not> True) ex_keyblock ! j
              then set_sig_flag (fst (ex_check j)) (ex_keyblock ! j) else ex_keyblock ! j)"
    by (rule conjunct1[OF conjunct2])
  from this[rule_format, of 3] have third':
    "fst (check_all_keysigs ex_check ex_keyblock True) ! 3 = ex_keyblock ! 3"
    by (simp add: l c')
  from t have word: "flag (set_sig_flag G10ERR_BAD_SIGN (ex_keyblock ! 3)) = NODFLG_BADSIG"
    and unmarked: "\<not> has_flag (set_sig_flag G10ERR_BAD_SIGN (ex_keyblock ! 3)) NODFLG_MARK_A"
    by simp_all
  from u disj have kept: "flag (set_sig_flag RC_OK (ex_keyblock ! 4)) AND NODFLG_SELUID
        = flag (ex_keyblock ! 4) AND NODFLG_SELUID"
    by blast
  from before have "\<forall>m \<in> set ex_keyblock. at_most_one_err m"
    by (simp add: list_all_iff)
  with t have "\<forall>m \<in> set (fst (check_all_keysigs ex_check ex_keyblock False)). at_most_one_err m"
    by blast
  then have after: "list_all at_most_one_err (fst (check_all_keysigs ex_check ex_keyblock False))"
    by (simp add: list_all_iff)
  from disj before l c c' marked third third' word unmarked kept after show ?thesis
    by simp
qed

lemma count_sig_fields [simp]:
  "mis_selfsig (count_sig rc sf st) = mis_selfsig st"
  "anyuid (count_sig rc sf st) = anyuid st"
  "has_selfsig (count_sig rc sf st) = (has_selfsig st \<or> (rc = RC_OK \<and> sf))"
  by (cases rc; simp)+

lemma visit_uid_visited:
  assumes "visited_uid os node" "\<not> os \<longrightarrow> selected st"
  shows "selected (visit_uid os node st)" "anyuid (visit_uid os node st)"
    "\<not> has_selfsig (visit_uid os node st)"
    "mis_selfsig (visit_uid os node st)
       = (if anyuid st \<and> \<not> has_selfsig st then mis_selfsig st + 1 else mis_selfsig st)"
  using assms by (auto simp: visit_uid_def visited_uid_def Let_def)

lemma visit_uid_not_visited:
  assumes "\<not> visited_uid os node" "\<not> deleted node" "pkttype (pkt node) = PKT_USER_ID"
  shows "os" "\<not> selected (visit_uid os node st)" "anyuid (visit_uid os node st) = anyuid st"
    "has_selfsig (visit_uid os node st) = has_selfsig st"
    "mis_selfsig (visit_uid os node st) = mis_selfsig st"
  using assms by (auto simp: visit_uid_def visited_uid_def Let_def split: if_splits)

lemma keysig_loop_mis_anyuid:
  assumes "anyuid st" "\<not> os \<longrightarrow> selected st"
  shows "mis_selfsig (snd (keysig_loop cks os i kb st))
           + (if has_selfsig (snd (keysig_loop cks os i kb st)) then 0 else 1)
         = mis_selfsig st
           + (if has_selfsig st \<or> (selected st \<and> valid_selfsig_behind cks i kb) then 0 else 1)
           + uids_missing_selfsig cks os i kb"
  using assms
proof (induction kb arbitrary: i st)
  case Nil
  show ?case by simp
next
  case (Cons n kb)
  show ?case
  proof (cases "deleted n")
    case True
    with Cons.IH[OF Cons.prems, of "Suc i"] show ?thesis
      by (simp add: case_prod_beta Let_def visited_uid_def)
  next
    case live: False
    show ?thesis
    proof (cases "pkttype (pkt n) = PKT_USER_ID")
      case uid: True
      let ?st1 = "visit_uid os n st"
      have step: "snd (keysig_loop cks os i (n # kb) st) = snd (keysig_loop cks os (Suc i) kb ?st1)"
        using live uid by (simp add: case_prod_beta Let_def)
      show ?thesis
      proof (cases "visited_uid os n")
        case True
        note v = visit_uid_visited[OF True Cons.prems(2)]
        have "mis_selfsig (snd (keysig_loop cks os (Suc i) kb ?st1))
           + (if has_selfsig (snd (keysig_loop cks os (Suc i) kb ?st1)) then 0 else 1)
         = mis_selfsig ?st1
           + (if has_selfsig ?st1 \<or> (selected ?st1 \<and> valid_selfsig_behind cks (Suc i) kb)
              then 0 else 1)
           + uids_missing_selfsig cks os (Suc i) kb"
          by (rule Cons.IH) (use v in blast)+
        with v Cons.prems(1) True live uid show ?thesis
          unfolding step by simp
      next
        case False
        note v = visit_uid_not_visited[OF False live uid]
        have "mis_selfsig (snd (keysig_loop cks os (Suc i) kb ?st1))
           + (if has_selfsig (snd (keysig_loop cks os (Suc i) kb ?st1)) then 0 else 1)
         = mis_selfsig ?st1
           + (if has_selfsig ?st1 \<or> (selected ?st1 \<and> valid_selfsig_behind cks (Suc i) kb)
              then 0 else 1)
           + uids_missing_selfsig cks os (Suc i) kb"
          by (rule Cons.IH) (use v Cons.prems in simp_all)
        with v False live uid show ?thesis
          unfolding step by simp
      qed
    next
      case nouid: False
      then have nv: "\<not> visited_uid os n" by (simp add: visited_uid_def)
      show ?thesis
      proof (cases "selected st \<and> is_uid_cert n")
        case True
        let ?st1 = "count_sig (fst (cks i)) (snd (cks i)) st"
        have step: "snd (keysig_loop cks os i (n # kb) st)
                      = snd (keysig_loop cks os (Suc i) kb ?st1)"
          using live nouid True by (simp add: case_prod_beta Let_def)
        have "mis_selfsig (snd (keysig_loop cks os (Suc i) kb ?st1))
           + (if has_selfsig (snd (keysig_loop cks os (Suc i) kb ?st1)) then 0 else 1)
         = mis_selfsig ?st1
           + (if has_selfsig ?st1 \<or> (selected ?st1 \<and> valid_selfsig_behind cks (Suc i) kb)
              then 0 else 1)
           + uids_missing_selfsig cks os (Suc i) kb"
          by (rule Cons.IH) (use Cons.prems in simp_all)
        moreover have "(fst (cks i) = RC_OK \<and> snd (cks i)) = (cks i = (RC_OK, True))"
          by (auto simp: prod_eq_iff)
        ultimately show ?thesis
          using nv live nouid True unfolding step by auto
      next
        case False
        have step: "snd (keysig_loop cks os i (n # kb) st)
                      = snd (keysig_loop cks os (Suc i) kb st)"
          using live nouid False by (auto simp: case_prod_beta Let_def)
        from Cons.IH[OF Cons.prems, of "Suc i"] nv live nouid False show ?thesis
          unfolding step by auto
      qed
    qed
  qed
qed

lemma keysig_loop_mis_first:
  assumes "\<not> anyuid st" "\<not> os \<longrightarrow> selected st" "list_ex (visited_uid os) kb"
  shows "mis_selfsig (snd (keysig_loop cks os i kb st))
           + (if has_selfsig (snd (keysig_loop cks os i kb st)) then 0 else 1)
         = mis_selfsig st + uids_missing_selfsig cks os i kb"
  using assms
proof (induction kb arbitrary: i st)
  case Nil
  then show ?case by simp
next
  case (Cons n kb)
  show ?case
  proof (cases "visited_uid os n")
    case True
    then have live: "\<not> deleted n" and uid: "pkttype (pkt n) = PKT_USER_ID"
      by (simp_all add: visited_uid_def)
    let ?st1 = "visit_uid os n st"
    have step: "snd (keysig_loop cks os i (n # kb) st) = snd (keysig_loop cks os (Suc i) kb ?st1)"
      using live uid by (simp add: case_prod_beta Let_def)
    note v = visit_uid_visited[OF True Cons.prems(2)]
    have "mis_selfsig (snd (keysig_loop cks os (Suc i) kb ?st1))
           + (if has_selfsig (snd (keysig_loop cks os (Suc i) kb ?st1)) then 0 else 1)
         = mis_selfsig ?st1
           + (if has_selfsig ?st1 \<or> (selected ?st1 \<and> valid_selfsig_behind cks (Suc i) kb)
              then 0 else 1)
           + uids_missing_selfsig cks os (Suc i) kb"
      by (rule keysig_loop_mis_anyuid) (use v in blast)+
    with v Cons.prems(1) True show ?thesis
      unfolding step by simp
  next
    case nv: False
    with Cons.prems(3) have ex: "list_ex (visited_uid os) kb" by simp
    show ?thesis
    proof (cases "deleted n")
      case True
      with Cons.IH[OF Cons.prems(1,2) ex, of "Suc i"] nv show ?thesis
        by (simp add: case_prod_beta Let_def)
    next
      case live: False
      show ?thesis
      proof (cases "pkttype (pkt n) = PKT_USER_ID")
        case uid: True
        let ?st1 = "visit_uid os n st"
        have step: "snd (keysig_loop cks os i (n # kb) st)
                      = snd (keysig_loop cks os (Suc i) kb ?st1)"
          using live uid by (simp add: case_prod_beta Let_def)
        note v = visit_uid_not_visited[OF nv live uid]
        have "mis_selfsig (snd (keysig_loop cks os (Suc i) kb ?st1))
           + (if has_selfsig (snd (keysig_loop cks os (Suc i) kb ?st1)) then 0 else 1)
         = mis_selfsig ?st1 + uids_missing_selfsig cks os (Suc i) kb"
          by (rule Cons.IH) (use v Cons.prems ex in simp_all)
        with v nv show ?thesis unfolding step by simp
      next
        case nouid: False
        show ?thesis
        proof (cases "selected st \<and> is_uid_cert n")
          case True
          let ?st1 = "count_sig (fst (cks i)) (snd (cks i)) st"
          have step: "snd (keysig_loop cks os i (n # kb) st)
                        = snd (keysig_loop cks os (Suc i) kb ?st1)"
            using live nouid True by (simp add: case_prod_beta Let_def)
          have "mis_selfsig (snd (keysig_loop cks os (Suc i) kb ?st1))
           + (if has_selfsig (snd (keysig_loop cks os (Suc i) kb ?st1)) then 0 else 1)
         = mis_selfsig ?st1 + uids_missing_selfsig cks os (Suc i) kb"
            by (rule Cons.IH) (use Cons.prems ex in simp_all)
          with nv show ?thesis unfolding step by simp
        next
          case False
          have step: "snd (keysig_loop cks os i (n # kb) st)
                        = snd (keysig_loop cks os (Suc i) kb st)"
            using live nouid False by (auto simp: case_prod_beta Let_def)
          from Cons.IH[OF Cons.prems(1,2) ex, of "Suc i"] nv show ?thesis
            unfolding step by simp
        qed
      qed
    qed
  qed
qed

lemma check_all_keysigs_mis:
  "mis_selfsig (fst (snd (check_all_keysigs cks kb os)))
     = (let st = snd (keysig_loop cks os 0 kb
                \<lparr>inv_sigs = 0, no_key = 0, oth_err = 0, has_selfsig = False,
                 mis_selfsig = 0, selected = \<not> os, anyuid = False\<rparr>)
        in mis_selfsig st + (if has_selfsig st then 0 else 1))"
  by (simp add: check_all_keysigs_def case_prod_beta Let_def)

lemma uids_missing_selfsig_zero:
  "uids_missing_selfsig cks os i kb = 0 \<longleftrightarrow>
   (\<forall>j < length kb. visited_uid os (kb ! j) \<longrightarrow>
        valid_selfsig_behind cks (Suc (i + j)) (drop (Suc j) kb))"
proof (induction kb arbitrary: i)
  case Nil
  show ?case by simp
next
  case (Cons n kb)
  have nn: "0 \<le> uids_missing_selfsig cks os (Suc i) kb" for i kb
    by (induction kb arbitrary: i) simp_all
  have "(\<forall>j < length (n # kb). visited_uid os ((n # kb) ! j) \<longrightarrow>
           valid_selfsig_behind cks (Suc (i + j)) (drop (Suc j) (n # kb)))
        \<longleftrightarrow> (visited_uid os n \<longrightarrow> valid_selfsig_behind cks (Suc i) kb)
            \<and> (\<forall>j < length kb. visited_uid os (kb ! j) \<longrightarrow>
                  valid_selfsig_behind cks (Suc (Suc i + j)) (drop (Suc j) kb))"
    by (auto simp: less_Suc_eq_0_disj)
  with Cons.IH[of "Suc i"] nn[of i kb] show ?case by auto
qed

lemma visited_caller:
  assumes "0 < count_uids kb" "\<not> list_ex deleted kb"
  shows "list_ex (visited_uid (count_selected_uids kb \<noteq> 0)) kb"
proof (cases "count_selected_uids kb = 0")
  case True
  have "0 < count_uids kb \<Longrightarrow> \<exists>n \<in> set kb. pkttype (pkt n) = PKT_USER_ID"
    by (induction kb) (auto split: if_splits)
  with assms True show ?thesis
    by (auto simp: list_ex_iff visited_uid_def)
next
  case False
  have "count_uids_with_flag kb f \<noteq> 0 \<Longrightarrow>
        \<exists>n \<in> set kb. pkttype (pkt n) = PKT_USER_ID \<and> has_flag n f" for f
    by (induction kb) (auto split: if_splits)
  with False assms show ?thesis
    by (auto simp: list_ex_iff visited_uid_def count_selected_uids_def)
qed


text \<open>
  Claim C2. The \<^verbatim>\<open>check\<close> command works on the public keyblock of the session,
  which holds a user id and no deleted node; so the walk visits a user id. Whenever
  it does, \<^verbatim>\<open>mis_selfsig\<close> is on return the number of visited user ids without a
  verifying self-signature, the last one included. That number is 0 exactly if
  every visited user id has a verifying self-signature behind it.
\<close>

theorem check_all_keysigs_missing_self:
  "(list_ex (visited_uid os) kb \<longrightarrow>
      mis_selfsig (fst (snd (check_all_keysigs cks kb os))) = uids_missing_selfsig cks os 0 kb)
   \<and> (0 < count_uids kb \<and> \<not> list_ex deleted kb \<longrightarrow>
        mis_selfsig (fst (snd (cmd_check cks kb)))
          = uids_missing_selfsig cks (count_selected_uids kb \<noteq> 0) 0 kb)
   \<and> (uids_missing_selfsig cks os 0 kb = 0 \<longleftrightarrow>
        (\<forall>j < length kb. visited_uid os (kb ! j) \<longrightarrow>
           valid_selfsig_behind cks (Suc j) (drop (Suc j) kb)))"
proof -
  let ?st = "\<lambda>os. \<lparr>inv_sigs = 0, no_key = 0, oth_err = 0, has_selfsig = False,
                mis_selfsig = 0, selected = \<not> os, anyuid = False\<rparr>"
  have gen: "mis_selfsig (fst (snd (check_all_keysigs cks kb os)))
               = uids_missing_selfsig cks os 0 kb"
    if "list_ex (visited_uid os) kb" for os
    unfolding check_all_keysigs_mis Let_def
    using keysig_loop_mis_first[of "?st os" os kb cks 0] that by simp
  have caller: "mis_selfsig (fst (snd (cmd_check cks kb)))
          = uids_missing_selfsig cks (count_selected_uids kb \<noteq> 0) 0 kb"
    if "0 < count_uids kb" "\<not> list_ex deleted kb"
    unfolding cmd_check_def by (rule gen) (rule visited_caller[OF that])
  from gen[of os] caller uids_missing_selfsig_zero[of cks os 0 kb] show ?thesis
    by simp
qed

theorem check_all_keysigs_missing_self_witness:
  "list_ex (visited_uid False) ex_keyblock
   \<and> uids_missing_selfsig ex_check False 0 ex_keyblock = 1
   \<and> mis_selfsig (fst (snd (check_all_keysigs ex_check ex_keyblock False))) = 1
   \<and> 0 < count_uids ex_keyblock
   \<and> \<not> list_ex deleted ex_keyblock
   \<and> count_selected_uids ex_keyblock = 1
   \<and> uids_missing_selfsig ex_check True 0 ex_keyblock = 1
   \<and> mis_selfsig (fst (snd (cmd_check ex_check ex_keyblock))) = 1
   \<and> list_ex (visited_uid True) ex_keyblock
   \<and> uids_missing_selfsig (\<lambda>i. (RC_OK, True)) True 0 ex_keyblock = 0
   \<and> mis_selfsig (fst (snd (check_all_keysigs (\<lambda>i. (RC_OK, True)) ex_keyblock True))) = 0"
proof -
  note ev = ex_keyblock_def ex_node_def ex_sig_def ex_check_def visited_uid_def
    is_uid_cert_def has_flag_def NODFLG_SELUID_def NODFLG_MARK_A_def NODFLG_NOKEY_def
    count_selected_uids_def
  have v: "list_ex (visited_uid False) ex_keyblock"
    and v': "list_ex (visited_uid True) ex_keyblock"
    and m: "uids_missing_selfsig ex_check False 0 ex_keyblock = 1"
    and m': "uids_missing_selfsig ex_check True 0 ex_keyblock = 1"
    and z: "uids_missing_selfsig (\<lambda>i. (RC_OK, True)) True 0 ex_keyblock = 0"
    and u: "0 < count_uids ex_keyblock"
    and d: "\<not> list_ex deleted ex_keyblock"
    and s: "count_selected_uids ex_keyblock = 1"
    by (simp_all add: ev)
  note a = check_all_keysigs_missing_self[of False ex_keyblock ex_check]
  note b = check_all_keysigs_missing_self[of True ex_keyblock "\<lambda>i. (RC_OK, True)"]
  from a v m have r1: "mis_selfsig (fst (snd (check_all_keysigs ex_check ex_keyblock False))) = 1"
    by simp
  from a u d s m' have r2: "mis_selfsig (fst (snd (cmd_check ex_check ex_keyblock))) = 1"
    by simp
  from b v' z have r3:
    "mis_selfsig (fst (snd (check_all_keysigs (\<lambda>i. (RC_OK, True)) ex_keyblock True))) = 0"
    by simp
  from v v' m m' z u d s r1 r2 r3 show ?thesis by simp
qed

text \<open>
  The condition is needed: at a keyblock without user ids the walk visits none, and
  \<^verbatim>\<open>check_all_keysigs\<close> counts one, because the test \<^verbatim>\<open>if( !has_selfsig )\<close> after
  the loop has no \<^verbatim>\<open>anyuid\<close> guard.
\<close>

lemma check_all_keysigs_no_uid:
  "mis_selfsig (fst (snd (check_all_keysigs cks ex_no_uid False))) = 1
   \<and> snd (snd (check_all_keysigs cks ex_no_uid False))
   \<and> count_uids ex_no_uid = 0"
  by (simp add: check_all_keysigs_def ex_no_uid_def ex_node_def is_uid_cert_def)

section \<open>Deleting and adding user ids and subkeys\<close>

lemma uid_names_commit [simp]: "uid_names (commit_kbnode kb) = uid_names kb"
  by (induction kb) (auto simp: commit_kbnode_def split: PACKET.splits)

lemma pub_subkey_ids_commit [simp]: "pub_subkey_ids (commit_kbnode kb) = pub_subkey_ids kb"
  by (induction kb) (auto simp: commit_kbnode_def split: PACKET.splits)

lemma sec_subkey_ids_commit [simp]: "sec_subkey_ids (commit_kbnode kb) = sec_subkey_ids kb"
  by (induction kb) (auto simp: commit_kbnode_def split: PACKET.splits)

lemma pkt_delete_kbnode [simp]: "pkt (delete_kbnode n) = pkt n"
  by (simp add: delete_kbnode_def)

lemma deleted_delete_kbnode [simp]: "deleted (delete_kbnode n)"
  by (simp add: delete_kbnode_def)

lemma uid_names_deluid_sec:
  "set (uid_names (deluid_sec uid b sec)) = set (uid_names sec) - {name uid}"
  by (induction sec arbitrary: b) (auto simp: Let_def split: PACKET.splits)

lemma sec_subkey_ids_deluid_sec:
  "sec_subkey_ids (deluid_sec uid b sec) = sec_subkey_ids sec"
  by (induction sec arbitrary: b) (auto simp: Let_def split: PACKET.splits)

lemma deluid_sec_Nil [simp]: "deluid_sec uid b sec = [] \<longleftrightarrow> sec = []"
  by (cases sec) (auto simp: Let_def split: PACKET.splits)

lemma deluid_pub_uid_names:
  "uid_names (fst (deluid_pub sel pub sec)) = kept_uid_names pub"
  by (induction pub arbitrary: sel sec) (auto simp: Let_def case_prod_beta split: PACKET.splits)

lemma deluid_pub_subkeys:
  "pub_subkey_ids (fst (deluid_pub sel pub sec)) = pub_subkey_ids pub"
  by (induction pub arbitrary: sel sec) (auto simp: Let_def case_prod_beta split: PACKET.splits)

lemma deluid_pub_sec_names:
  "set (uid_names (snd (deluid_pub sel pub sec))) = set (uid_names sec) - set (selected_uid_names pub)"
proof (induction pub arbitrary: sel sec)
  case Nil
  show ?case by simp
next
  case (Cons n pub)
  show ?case
  proof (cases "pkt n")
    case (UserId uid)
    show ?thesis
    proof (cases "has_flag n NODFLG_SELUID")
      case True
      have "set (uid_names (if sec \<noteq> [] then deluid_sec uid False sec else sec))
              = set (uid_names sec) - {name uid}"
        by (cases sec) (simp_all only: uid_names_deluid_sec uid_names.simps if_True if_False
            simp_thms list.simps set_simps Diff_empty empty_Diff)
      with UserId True Cons.IH show ?thesis
        by (auto simp: Let_def case_prod_beta)
    next
      case False
      with UserId Cons.IH show ?thesis
        by (simp add: Let_def case_prod_beta)
    qed
  qed (use Cons.IH in \<open>simp_all add: Let_def case_prod_beta\<close>)
qed

lemma deluid_pub_sec_subkeys:
  "sec_subkey_ids (snd (deluid_pub sel pub sec)) = sec_subkey_ids sec"
  by (induction pub arbitrary: sel sec)
     (auto simp: Let_def case_prod_beta sec_subkey_ids_deluid_sec split: PACKET.splits)


lemma delkey_sec_ids:
  "set (sec_subkey_ids (delkey_sec ki b sec)) = set (sec_subkey_ids sec) - {ki}"
  by (induction sec arbitrary: b) (auto simp: Let_def prod_eq_iff split: PACKET.splits)

lemma delkey_sec_uid_names:
  "uid_names (delkey_sec ki b sec) = uid_names sec"
  by (induction sec arbitrary: b) (auto simp: Let_def split: PACKET.splits)

lemma delkey_pub_ids:
  "pub_subkey_ids (fst (delkey_pub sel pub sec)) = kept_subkey_ids pub"
  by (induction pub arbitrary: sel sec) (auto simp: Let_def case_prod_beta split: PACKET.splits)

lemma delkey_pub_uid_names:
  "uid_names (fst (delkey_pub sel pub sec)) = uid_names pub"
  by (induction pub arbitrary: sel sec) (auto simp: Let_def case_prod_beta split: PACKET.splits)

lemma delkey_pub_sec_uid_names:
  "uid_names (snd (delkey_pub sel pub sec)) = uid_names sec"
  by (induction pub arbitrary: sel sec)
     (auto simp: Let_def case_prod_beta delkey_sec_uid_names split: PACKET.splits)

lemma delkey_pub_sec_ids:
  "set (sec_subkey_ids (snd (delkey_pub sel pub sec)))
     = set (sec_subkey_ids sec) - set (selected_subkey_ids pub)"
proof (induction pub arbitrary: sel sec)
  case Nil
  show ?case by simp
next
  case (Cons n pub)
  show ?case
  proof (cases "pkt n")
    case (PublicSubkey pk)
    show ?thesis
    proof (cases "has_flag n NODFLG_SELKEY")
      case True
      have "set (sec_subkey_ids (if sec \<noteq> [] then delkey_sec (keyid_from_pk pk) False sec else sec))
              = set (sec_subkey_ids sec) - {keyid_from_pk pk}"
        by (cases sec) (simp_all only: delkey_sec_ids sec_subkey_ids.simps if_True if_False
            simp_thms list.simps set_simps Diff_empty empty_Diff)
      with PublicSubkey True Cons.IH show ?thesis
        by (auto simp: Let_def case_prod_beta)
    next
      case False
      with PublicSubkey Cons.IH show ?thesis
        by (simp add: Let_def case_prod_beta)
    qed
  qed (use Cons.IH in \<open>simp_all add: Let_def case_prod_beta\<close>)
qed

lemma kept_uid_names_subset: "set (kept_uid_names kb) \<subseteq> set (uid_names kb)"
  by (induction kb) (auto split: PACKET.splits)

lemma kept_subkey_ids_subset: "set (kept_subkey_ids kb) \<subseteq> set (pub_subkey_ids kb)"
  by (induction kb) (auto split: PACKET.splits)

lemma pub_subkey_ids_split:
  "set (pub_subkey_ids kb) \<subseteq> set (kept_subkey_ids kb) \<union> set (selected_subkey_ids kb)"
  by (induction kb) (auto split: PACKET.splits)

lemma uid_names_append [simp]: "uid_names (xs @ ys) = uid_names xs @ uid_names ys"
  by (induction xs) (auto split: PACKET.splits)

lemma pub_subkey_ids_append [simp]:
  "pub_subkey_ids (xs @ ys) = pub_subkey_ids xs @ pub_subkey_ids ys"
  by (induction xs) (auto split: PACKET.splits)

lemma sec_subkey_ids_append [simp]:
  "sec_subkey_ids (xs @ ys) = sec_subkey_ids xs @ sec_subkey_ids ys"
  by (induction xs) (auto split: PACKET.splits)

lemma adduid_insert_eq:
  "adduid_insert wh kb u s =
     (case wh of Some i \<Rightarrow> take (Suc i) kb @ u # s # drop (Suc i) kb
               | None \<Rightarrow> kb @ [u, s])"
proof (cases wh)
  case None
  then show ?thesis by (simp add: adduid_insert_def add_kbnode_def)
next
  case (Some i)
  show ?thesis
  proof (cases "Suc i \<le> length kb")
    case True
    then show ?thesis
      using Some by (simp add: adduid_insert_def insert_kbnode_def min_def)
  next
    case False
    then show ?thesis
      using Some by (simp add: adduid_insert_def insert_kbnode_def)
  qed
qed

lemma adduid_insert_uid_names:
  "set (uid_names (adduid_insert wh kb (new_kbnode (UserId uid)) (new_kbnode (Signature sg))))
     = insert (name uid) (set (uid_names kb))"
proof -
  have "set (uid_names (take n kb)) \<union> set (uid_names (drop n kb)) = set (uid_names kb)" for n
    using uid_names_append[of "take n kb" "drop n kb"] by (metis append_take_drop_id set_append)
  then show ?thesis
    by (auto simp: adduid_insert_eq new_kbnode_def split: option.splits)
qed

lemma adduid_insert_pub_ids:
  "set (pub_subkey_ids (adduid_insert wh kb (new_kbnode (UserId uid)) (new_kbnode (Signature sg))))
     = set (pub_subkey_ids kb)"
proof -
  have "set (pub_subkey_ids (take n kb)) \<union> set (pub_subkey_ids (drop n kb)) = set (pub_subkey_ids kb)" for n
    using pub_subkey_ids_append[of "take n kb" "drop n kb"] by (metis append_take_drop_id set_append)
  then show ?thesis
    by (auto simp: adduid_insert_eq new_kbnode_def split: option.splits)
qed

lemma adduid_insert_sec_ids:
  "set (sec_subkey_ids (adduid_insert wh kb (new_kbnode (UserId uid)) (new_kbnode (Signature sg))))
     = set (sec_subkey_ids kb)"
proof -
  have "set (sec_subkey_ids (take n kb)) \<union> set (sec_subkey_ids (drop n kb)) = set (sec_subkey_ids kb)" for n
    using sec_subkey_ids_append[of "take n kb" "drop n kb"] by (metis append_take_drop_id set_append)
  then show ?thesis
    by (auto simp: adduid_insert_eq new_kbnode_def split: option.splits)
qed

lemma menu_deluid_pairing:
  assumes inv: "pairing pub sec"
    and dis: "set (selected_uid_names pub) \<inter> set (kept_uid_names pub) = {}"
    and run: "menu_deluid pub sec = Some (pub', sec')"
  shows "pairing pub' sec'"
proof -
  from run have pub': "pub' = commit_kbnode (fst (deluid_pub False pub sec))"
    and sec': "sec' = (if sec \<noteq> [] then commit_kbnode (snd (deluid_pub False pub sec))
                       else snd (deluid_pub False pub sec))"
    by (auto simp: menu_deluid_def case_prod_beta Let_def split: if_splits)
  have names_pub: "uid_names pub' = kept_uid_names pub"
    by (simp add: pub' deluid_pub_uid_names)
  have names_sec: "set (uid_names sec') = set (uid_names sec) - set (selected_uid_names pub)"
    by (simp add: sec' deluid_pub_sec_names)
  have ids_pub: "pub_subkey_ids pub' = pub_subkey_ids pub"
    by (simp add: pub' deluid_pub_subkeys)
  have ids_sec: "sec_subkey_ids sec' = sec_subkey_ids sec"
    by (simp add: sec' deluid_pub_sec_subkeys)
  from inv have "set (uid_names pub) \<subseteq> set (uid_names sec)"
    and "set (pub_subkey_ids pub) = set (sec_subkey_ids sec)"
    by (simp_all add: pairing_def)
  with dis kept_uid_names_subset[of pub] show ?thesis
    unfolding pairing_def names_pub names_sec ids_pub ids_sec by blast
qed

lemma menu_delkey_pairing:
  assumes inv: "pairing pub sec"
    and dis: "set (selected_subkey_ids pub) \<inter> set (kept_subkey_ids pub) = {}"
    and run: "menu_delkey pub sec = Some (pub', sec')"
  shows "pairing pub' sec'"
proof -
  from run have pub': "pub' = commit_kbnode (fst (delkey_pub False pub sec))"
    and sec': "sec' = (if sec \<noteq> [] then commit_kbnode (snd (delkey_pub False pub sec))
                       else snd (delkey_pub False pub sec))"
    by (auto simp: menu_delkey_def case_prod_beta Let_def split: if_splits)
  have names_pub: "uid_names pub' = uid_names pub"
    by (simp add: pub' delkey_pub_uid_names)
  have names_sec: "uid_names sec' = uid_names sec"
    by (simp add: sec' delkey_pub_sec_uid_names)
  have ids_pub: "pub_subkey_ids pub' = kept_subkey_ids pub"
    by (simp add: pub' delkey_pub_ids)
  have ids_sec: "set (sec_subkey_ids sec')
                   = set (sec_subkey_ids sec) - set (selected_subkey_ids pub)"
    by (simp add: sec' delkey_pub_sec_ids)
  from inv have "set (uid_names pub) \<subseteq> set (uid_names sec)"
    and "set (pub_subkey_ids pub) = set (sec_subkey_ids sec)"
    by (simp_all add: pairing_def)
  with dis kept_subkey_ids_subset[of pub] pub_subkey_ids_split[of pub] show ?thesis
    unfolding pairing_def names_pub names_sec ids_pub ids_sec by blast
qed

lemma menu_adduid_pairing:
  assumes inv: "pairing pub sec"
    and run: "menu_adduid new_uid keysig pub sec = Some (True, pub', sec')"
  shows "pairing pub' sec'"
proof -
  from run obtain uid wp ws sg where
    pub': "pub' = adduid_insert wp pub (new_kbnode (UserId uid)) (new_kbnode (Signature sg))"
    and sec': "sec' = adduid_insert ws sec (new_kbnode (UserId uid)) (new_kbnode (Signature sg))"
    by (auto simp: menu_adduid_def case_prod_beta Let_def
        split: option.splits if_splits)
  from inv show ?thesis
    unfolding pairing_def pub' sec'
    by (auto simp: adduid_insert_uid_names adduid_insert_pub_ids adduid_insert_sec_ids)
qed

text \<open>
  Claim C1, as amended. If the pairing invariant holds for the two keyblocks, then it
  holds for the keyblocks that \<^verbatim>\<open>menu_adduid\<close> leaves when it returns true, for
  those that \<^verbatim>\<open>menu_deluid\<close> leaves provided no live unselected user id of the
  public keyblock has the name of a selected one, and for those that
  \<^verbatim>\<open>menu_delkey\<close> leaves provided no live unselected public subkey has the key id of
  a selected one.
\<close>

theorem mutation_keeps_pairing:
  "pairing pub sec \<Longrightarrow>
   (menu_adduid new_uid keysig pub sec = Some (True, pub', sec') \<longrightarrow> pairing pub' sec')
   \<and> (set (selected_uid_names pub) \<inter> set (kept_uid_names pub) = {}
        \<and> menu_deluid pub sec = Some (pub', sec') \<longrightarrow> pairing pub' sec')
   \<and> (set (selected_subkey_ids pub) \<inter> set (kept_subkey_ids pub) = {}
        \<and> menu_delkey pub sec = Some (pub', sec') \<longrightarrow> pairing pub' sec')"
  using menu_adduid_pairing menu_deluid_pairing menu_delkey_pairing by blast

lemmas ex_defs = ex_pub_def ex_sec_def ex_dup_pub_def ex_dup_sec_def ex_node_def ex_sig_def

lemma ex_pub_deluid:
  "menu_deluid ex_pub ex_sec =
     Some ([ex_node (PublicKey ex_pk) 0,
            ex_node (UserId \<lparr>name = ''Alice''\<rparr>) 0,
            ex_node (ex_sig (0x11, 0x22)) 0,
            ex_node (PublicSubkey \<lparr>keyid_from_pk = (0x77, 0x88), local_id = 0\<rparr>) NODFLG_SELKEY,
            ex_node (ex_sig (0x11, 0x22)) 0,
            ex_node (PublicSubkey \<lparr>keyid_from_pk = (0x99, 0xAA), local_id = 0\<rparr>) 0,
            ex_node (ex_sig (0x11, 0x22)) 0],
           [ex_node (SecretKey ex_sk) 0,
            ex_node (UserId \<lparr>name = ''Alice''\<rparr>) 0,
            ex_node (ex_sig (0x11, 0x22)) 0,
            ex_node (SecretSubkey (ex_sk\<lparr>keyid_from_sk := (0x77, 0x88)\<rparr>)) 0,
            ex_node (ex_sig (0x11, 0x22)) 0,
            ex_node (SecretSubkey (ex_sk\<lparr>keyid_from_sk := (0x99, 0xAA)\<rparr>)) 0,
            ex_node (ex_sig (0x11, 0x22)) 0])"
  by (simp add: menu_deluid_def ex_defs has_flag_def NODFLG_SELUID_def NODFLG_SELKEY_def
      delete_kbnode_def commit_kbnode_def root_deleted_def)

lemma ex_pub_delkey:
  "menu_delkey ex_pub ex_sec =
     Some ([ex_node (PublicKey ex_pk) 0,
            ex_node (UserId \<lparr>name = ''Alice''\<rparr>) 0,
            ex_node (ex_sig (0x11, 0x22)) 0,
            ex_node (UserId \<lparr>name = ''Bob''\<rparr>) NODFLG_SELUID,
            ex_node (ex_sig (0x11, 0x22)) 0,
            ex_node (PublicSubkey \<lparr>keyid_from_pk = (0x99, 0xAA), local_id = 0\<rparr>) 0,
            ex_node (ex_sig (0x11, 0x22)) 0],
           [ex_node (SecretKey ex_sk) 0,
            ex_node (UserId \<lparr>name = ''Alice''\<rparr>) 0,
            ex_node (ex_sig (0x11, 0x22)) 0,
            ex_node (UserId \<lparr>name = ''Bob''\<rparr>) 0,
            ex_node (ex_sig (0x11, 0x22)) 0,
            ex_node (SecretSubkey (ex_sk\<lparr>keyid_from_sk := (0x99, 0xAA)\<rparr>)) 0,
            ex_node (ex_sig (0x11, 0x22)) 0])"
  by (simp add: menu_delkey_def ex_defs has_flag_def NODFLG_SELUID_def NODFLG_SELKEY_def
      delete_kbnode_def commit_kbnode_def root_deleted_def ex_sk_def)

lemma ex_pub_adduid:
  "menu_adduid (Some \<lparr>name = ''Carol''\<rparr>) (RC_OK, 5) ex_pub ex_sec =
     Some (True,
           take 5 ex_pub
             @ [new_kbnode (UserId \<lparr>name = ''Carol''\<rparr>),
                new_kbnode (Signature \<lparr>sig_keyid = (0x11, 0x22), sig_class = 0x13,
                                        sig_timestamp = 5\<rparr>)]
             @ drop 5 ex_pub,
           take 5 ex_sec
             @ [new_kbnode (UserId \<lparr>name = ''Carol''\<rparr>),
                new_kbnode (Signature \<lparr>sig_keyid = (0x11, 0x22), sig_class = 0x13,
                                        sig_timestamp = 5\<rparr>)]
             @ drop 5 ex_sec)"
  by (simp add: menu_adduid_def ex_defs make_keysig_packet_def adduid_insert_def
      insert_kbnode_def ex_sk_def)

theorem mutation_keeps_pairing_witness:
  "pairing ex_pub ex_sec
   \<and> set (selected_uid_names ex_pub) \<inter> set (kept_uid_names ex_pub) = {}
   \<and> set (selected_subkey_ids ex_pub) \<inter> set (kept_subkey_ids ex_pub) = {}
   \<and> menu_adduid (Some \<lparr>name = ''Carol''\<rparr>) (RC_OK, 5) ex_pub ex_sec \<noteq> None
   \<and> fst (the (menu_adduid (Some \<lparr>name = ''Carol''\<rparr>) (RC_OK, 5) ex_pub ex_sec))
   \<and> pairing (fst (snd (the (menu_adduid (Some \<lparr>name = ''Carol''\<rparr>) (RC_OK, 5) ex_pub ex_sec))))
              (snd (snd (the (menu_adduid (Some \<lparr>name = ''Carol''\<rparr>) (RC_OK, 5) ex_pub ex_sec))))
   \<and> menu_deluid ex_pub ex_sec \<noteq> None
   \<and> pairing (fst (the (menu_deluid ex_pub ex_sec))) (snd (the (menu_deluid ex_pub ex_sec)))
   \<and> menu_delkey ex_pub ex_sec \<noteq> None
   \<and> pairing (fst (the (menu_delkey ex_pub ex_sec))) (snd (the (menu_delkey ex_pub ex_sec)))"
proof -
  have inv: "pairing ex_pub ex_sec"
    by (simp add: pairing_def ex_defs ex_sk_def)
  have d1: "set (selected_uid_names ex_pub) \<inter> set (kept_uid_names ex_pub) = {}"
    by (simp add: ex_defs has_flag_def NODFLG_SELUID_def NODFLG_SELKEY_def)
  have d2: "set (selected_subkey_ids ex_pub) \<inter> set (kept_subkey_ids ex_pub) = {}"
    by (simp add: ex_defs has_flag_def NODFLG_SELUID_def NODFLG_SELKEY_def)
  from mutation_keeps_pairing[OF inv] ex_pub_adduid
  have a: "pairing (fst (snd (the (menu_adduid (Some \<lparr>name = ''Carol''\<rparr>) (RC_OK, 5) ex_pub ex_sec))))
              (snd (snd (the (menu_adduid (Some \<lparr>name = ''Carol''\<rparr>) (RC_OK, 5) ex_pub ex_sec))))"
    by simp
  from mutation_keeps_pairing[OF inv] ex_pub_deluid d1
  have b: "pairing (fst (the (menu_deluid ex_pub ex_sec))) (snd (the (menu_deluid ex_pub ex_sec)))"
    by simp
  from mutation_keeps_pairing[OF inv] ex_pub_delkey d2
  have c: "pairing (fst (the (menu_delkey ex_pub ex_sec))) (snd (the (menu_delkey ex_pub ex_sec)))"
    by simp
  from inv d1 d2 a b c show ?thesis
    by (simp add: ex_pub_adduid ex_pub_deluid ex_pub_delkey)
qed

text \<open>
  Claim C1 as stated fails where two user ids of the public keyblock have the same
  name and one of them is selected: \<^verbatim>\<open>menu_deluid\<close> deletes every user id of that
  name from the secret keyblock and leaves the unselected one in the public keyblock.
  The \<^verbatim>\<open>deluid\<close> command does not refuse here: one of two user ids is selected.
\<close>

theorem deluid_same_name_breaks_pairing:
  "pairing ex_dup_pub ex_dup_sec
   \<and> count_selected_uids ex_dup_pub = 1
   \<and> count_uids ex_dup_pub = 2
   \<and> menu_deluid ex_dup_pub ex_dup_sec =
        Some ([ex_node (PublicKey ex_pk) 0,
               ex_node (UserId \<lparr>name = ''Alice''\<rparr>) 0,
               ex_node (ex_sig (0x11, 0x22)) 0],
              [ex_node (SecretKey ex_sk) 0])
   \<and> \<not> pairing [ex_node (PublicKey ex_pk) 0,
                  ex_node (UserId \<lparr>name = ''Alice''\<rparr>) 0,
                  ex_node (ex_sig (0x11, 0x22)) 0]
                 [ex_node (SecretKey ex_sk) 0]"
  by (simp add: pairing_def menu_deluid_def ex_defs has_flag_def NODFLG_SELUID_def
      delete_kbnode_def commit_kbnode_def root_deleted_def count_selected_uids_def)

section \<open>The \<^verbatim>\<open>deluid\<close> command\<close>

lemma count_uids_with_flag_le: "count_uids_with_flag kb f \<le> count_uids kb"
  by (induction kb) auto

lemma count_uids_with_flag_nonneg: "0 \<le> count_uids_with_flag kb f"
  by (induction kb) auto

text \<open>
  Claim C8. When as many user ids are selected as the keyblock has, the
  \<^verbatim>\<open>deluid\<close> command prints an error message ("You can't delete the last user id!",
  or "You must select at least one user id." when the keyblock has none), never calls
  \<^verbatim>\<open>menu_deluid\<close>, and leaves both keyblocks and the modified flags, the whole
  session, as they were, whatever the operator would answer.
\<close>

theorem cmd_deluid_refuses:
  "count_selected_uids (s_keyblock s) = count_uids (s_keyblock s) \<Longrightarrow>
   cmd_deluid answer s =
     Some (s, [if count_uids (s_keyblock s) = 0 then Must_select_at_least_one_uid
               else Cant_delete_last_uid])"
  by (simp add: cmd_deluid_def Let_def)

theorem cmd_deluid_refuses_witness:
  "count_selected_uids (s_keyblock \<lparr>s_keyblock = [ex_pub ! 0, ex_pub ! 3, ex_pub ! 4],
       s_sec_keyblock = ex_sec, s_modified = False, s_sec_modified = False,
       s_redisplay = False\<rparr>)
     = count_uids (s_keyblock \<lparr>s_keyblock = [ex_pub ! 0, ex_pub ! 3, ex_pub ! 4],
       s_sec_keyblock = ex_sec, s_modified = False, s_sec_modified = False,
       s_redisplay = False\<rparr>)
   \<and> cmd_deluid True \<lparr>s_keyblock = [ex_pub ! 0, ex_pub ! 3, ex_pub ! 4],
       s_sec_keyblock = ex_sec, s_modified = False, s_sec_modified = False,
       s_redisplay = False\<rparr>
     = Some (\<lparr>s_keyblock = [ex_pub ! 0, ex_pub ! 3, ex_pub ! 4],
       s_sec_keyblock = ex_sec, s_modified = False, s_sec_modified = False,
       s_redisplay = False\<rparr>, [Cant_delete_last_uid])"
proof -
  let ?s = "\<lparr>s_keyblock = [ex_pub ! 0, ex_pub ! 3, ex_pub ! 4],
       s_sec_keyblock = ex_sec, s_modified = False, s_sec_modified = False,
       s_redisplay = False\<rparr>"
  have c: "count_uids (s_keyblock ?s) = 1"
    by (simp add: ex_defs)
  have h: "count_selected_uids (s_keyblock ?s) = count_uids (s_keyblock ?s)"
    by (simp add: ex_defs count_selected_uids_def has_flag_def NODFLG_SELUID_def)
  from cmd_deluid_refuses[OF h, of True] c h show ?thesis
    by simp
qed

section \<open>Changing the passphrase\<close>

lemma unlock_subkeys_all_ok:
  "(\<And>i. outs i = RC_OK) \<Longrightarrow>
   fst (unlock_subkeys outs kb) = RC_OK
   \<and> fst (snd (unlock_subkeys outs kb)) = map unlock_node kb"
proof (induction kb arbitrary: outs)
  case Nil
  show ?case by simp
next
  case (Cons n kb)
  have r: "\<And>i. rest_of outs i = RC_OK"
    using Cons.prems by (simp add: rest_of_def)
  from Cons.IH[of outs, OF Cons.prems] Cons.IH[of "rest_of outs", OF r] Cons.prems[of 0]
  show ?case
    by (cases "pkt n")
       (simp_all add: check_secret_key_def unlock_node_def case_prod_beta Let_def)
qed

lemma find_kbnode_from_some:
  "find_kbnode_from i kb t = Some q \<Longrightarrow>
   i \<le> q \<and> q - i < length kb \<and> pkttype (pkt (kb ! (q - i))) = t"
proof (induction kb arbitrary: i)
  case Nil
  then show ?case by simp
next
  case (Cons n kb)
  show ?case
  proof (cases "pkttype (pkt n) = t")
    case True
    with Cons.prems show ?thesis by simp
  next
    case False
    with Cons.prems have "find_kbnode_from (Suc i) kb t = Some q" by simp
    from Cons.IH[OF this] have "Suc i \<le> q" "q - Suc i < length kb"
      "pkttype (pkt (kb ! (q - Suc i))) = t" by simp_all
    moreover from \<open>Suc i \<le> q\<close> have "q - i = Suc (q - Suc i)" by simp
    ultimately show ?thesis by simp
  qed
qed

lemma find_kbnode_from_cong:
  "map (\<lambda>n. pkttype (pkt n)) kb' = map (\<lambda>n. pkttype (pkt n)) kb \<Longrightarrow>
   find_kbnode_from i kb' t = find_kbnode_from i kb t"
proof (induction kb arbitrary: i kb')
  case Nil
  then show ?case by simp
next
  case (Cons n kb)
  then obtain n' kb'' where kb': "kb' = n' # kb''" by (cases kb') auto
  with Cons.prems have "pkttype (pkt n') = pkttype (pkt n)"
    and "map (\<lambda>n. pkttype (pkt n)) kb'' = map (\<lambda>n. pkttype (pkt n)) kb" by simp_all
  with Cons.IH[of kb'' "Suc i"] kb' show ?case by simp
qed

lemma pkttype_unlock_node [simp]: "pkttype (pkt (unlock_node n)) = pkttype (pkt n)"
  by (cases "pkt n") (simp_all add: unlock_node_def)

lemma subkeys_unprotected_map_unlock: "subkeys_unprotected (map unlock_node kb)"
  unfolding subkeys_unprotected_def list_all_iff
  by (auto simp: unlock_node_def split: PACKET.splits)

lemma new_passphrase_empty:
  "dek_keylen dek = 0 \<Longrightarrow>
   new_passphrase env (replicate k None @ Some dek # later) p sk kb =
     Some (RC_OK, if empty_okay env then 1 else 0, kb)"
  by (induction k) simp_all

lemma change_passphrase_empty:
  assumes prim: "find_kbnode kb PKT_SECRET_KEY = Some p"
    and sk: "pkt (kb ! p) = SecretKey sk"
    and algo: "sk_algo_supported sk"
    and unlock: "\<And>i. check_outcomes env i = RC_OK"
    and deks: "passphrase_to_dek env = replicate k None @ Some dek # later"
    and empty: "dek_keylen dek = 0"
    and yes: "empty_okay env"
  shows "change_passphrase env kb =
           Some (True, map unlock_node (kb[p := (kb ! p)\<lparr>pkt := SecretKey (sk\<lparr>is_protected := False\<rparr>)\<rparr>]))"
proof -
  let ?sk1 = "sk\<lparr>is_protected := False\<rparr>"
  let ?kb1 = "kb[p := (kb ! p)\<lparr>pkt := SecretKey ?sk1\<rparr>]"
  have r: "\<And>i. rest_of (check_outcomes env) i = RC_OK"
    using unlock by (simp add: rest_of_def)
  note u2 = unlock_subkeys_all_ok[of "rest_of (check_outcomes env)" ?kb1, OF r]
  show ?thesis
  proof (cases "is_protected sk")
    case True
    with prim sk algo unlock[of 0] u2 new_passphrase_empty[OF empty, of env k later] deks yes
    show ?thesis
      by (simp add: change_passphrase_def is_secret_key_protected_def check_secret_key_def
          case_prod_beta Let_def)
  next
    case False
    then have e: "sk\<lparr>is_protected := False\<rparr> = sk" by simp
    note u1 = unlock_subkeys_all_ok[of "check_outcomes env"
        "kb[p := (kb ! p)\<lparr>pkt := SecretKey sk\<rparr>]", OF unlock]
    show ?thesis
      unfolding e
      using False prim sk algo u1 new_passphrase_empty[OF empty, of env k later] deks yes
      by (simp add: change_passphrase_def is_secret_key_protected_def
          case_prod_beta Let_def)
  qed
qed


lemma find_kbnode_unlocked:
  "find_kbnode (map unlock_node (kb[p := (kb ! p)\<lparr>pkt := SecretKey sk'\<rparr>])) PKT_SECRET_KEY
     = find_kbnode (kb[p := (kb ! p)\<lparr>pkt := SecretKey sk'\<rparr>]) PKT_SECRET_KEY"
  unfolding find_kbnode_def
  by (rule find_kbnode_from_cong) (simp add: comp_def)

lemma find_kbnode_update:
  assumes "find_kbnode kb PKT_SECRET_KEY = Some p"
  shows "find_kbnode (kb[p := (kb ! p)\<lparr>pkt := SecretKey sk'\<rparr>]) PKT_SECRET_KEY = Some p"
proof -
  from find_kbnode_from_some[OF assms[unfolded find_kbnode_def]]
  have p: "p < length kb" and t: "pkttype (pkt (kb ! p)) = PKT_SECRET_KEY" by simp_all
  have "map (\<lambda>n. pkttype (pkt n)) (kb[p := (kb ! p)\<lparr>pkt := SecretKey sk'\<rparr>])
          = map (\<lambda>n. pkttype (pkt n)) kb"
    using p t by (simp add: map_update list_update_same_conv)
  from find_kbnode_from_cong[OF this] assms show ?thesis
    by (simp add: find_kbnode_def)
qed

text \<open>
  Claim C6. Let the secret keyblock have a primary secret key of a supported
  algorithm, let every \<^verbatim>\<open>check_secret_key\<close> succeed (the current passphrase is
  right), and let the operator, after any number of new passphrases that were not
  correctly repeated, enter an empty one and confirm. Then
  \<^verbatim>\<open>change_passphrase\<close> returns true ("changed"), the primary secret key and every
  secret subkey of the keyblock it leaves are marked unprotected, and the
  \<^verbatim>\<open>passwd\<close> command sets \<^verbatim>\<open>sec_modified\<close>.
\<close>

theorem change_passphrase_empty_unprotects:
  assumes prim: "find_kbnode (s_sec_keyblock s) PKT_SECRET_KEY = Some p"
    and sk: "pkt (s_sec_keyblock s ! p) = SecretKey sk"
    and algo: "sk_algo_supported sk"
    and unlock: "\<And>i. check_outcomes env i = RC_OK"
    and deks: "passphrase_to_dek env = replicate k None @ Some dek # later"
    and empty: "dek_keylen dek = 0"
    and yes: "empty_okay env"
  shows "\<exists>kb'. change_passphrase env (s_sec_keyblock s) = Some (True, kb')
           \<and> primary_unprotected kb' \<and> subkeys_unprotected kb'
           \<and> cmd_passwd env s = Some (s\<lparr>s_sec_keyblock := kb', s_sec_modified := True\<rparr>)"
proof -
  let ?kb = "s_sec_keyblock s"
  let ?kb1 = "?kb[p := (?kb ! p)\<lparr>pkt := SecretKey (sk\<lparr>is_protected := False\<rparr>)\<rparr>]"
  let ?kb' = "map unlock_node ?kb1"
  have run: "change_passphrase env ?kb = Some (True, ?kb')"
    by (rule change_passphrase_empty[OF prim sk algo unlock deks empty yes])
  from find_kbnode_from_some[OF prim[unfolded find_kbnode_def]]
  have p: "p < length ?kb" by simp
  have f: "find_kbnode ?kb' PKT_SECRET_KEY = Some p"
    by (simp only: find_kbnode_unlocked find_kbnode_update[OF prim])
  have "?kb' ! p = unlock_node ((?kb ! p)\<lparr>pkt := SecretKey (sk\<lparr>is_protected := False\<rparr>)\<rparr>)"
    using p by simp
  then have "pkt (?kb' ! p) = SecretKey (sk\<lparr>is_protected := False\<rparr>)"
    by (simp add: unlock_node_def)
  with f have prim': "primary_unprotected ?kb'"
    by (simp add: primary_unprotected_def)
  have sub': "subkeys_unprotected ?kb'"
    by (rule subkeys_unprotected_map_unlock)
  have "cmd_passwd env s = Some (s\<lparr>s_sec_keyblock := ?kb', s_sec_modified := True\<rparr>)"
    by (simp add: cmd_passwd_def run)
  with run prim' sub' show ?thesis by blast
qed

theorem change_passphrase_empty_unprotects_witness:
  "find_kbnode (s_sec_keyblock ex_session) PKT_SECRET_KEY = Some 0
   \<and> pkt (s_sec_keyblock ex_session ! 0) = SecretKey ex_sk
   \<and> sk_algo_supported ex_sk \<and> is_protected ex_sk
   \<and> \<not> subkeys_unprotected (s_sec_keyblock ex_session)
   \<and> passphrase_to_dek ex_passwd_env
        = replicate 1 None @ Some \<lparr>dek_algo = 4, dek_keylen = 0\<rparr> # []
   \<and> empty_okay ex_passwd_env
   \<and> change_passphrase ex_passwd_env (s_sec_keyblock ex_session) \<noteq> None
   \<and> fst (the (change_passphrase ex_passwd_env (s_sec_keyblock ex_session)))
   \<and> primary_unprotected
        (snd (the (change_passphrase ex_passwd_env (s_sec_keyblock ex_session))))
   \<and> subkeys_unprotected
        (snd (the (change_passphrase ex_passwd_env (s_sec_keyblock ex_session))))
   \<and> cmd_passwd ex_passwd_env ex_session \<noteq> None
   \<and> s_sec_modified (the (cmd_passwd ex_passwd_env ex_session))"
proof -
  have prim: "find_kbnode (s_sec_keyblock ex_session) PKT_SECRET_KEY = Some 0"
    by (simp add: ex_session_def ex_defs find_kbnode_def)
  have sk: "pkt (s_sec_keyblock ex_session ! 0) = SecretKey ex_sk"
    by (simp add: ex_session_def ex_defs)
  have algo: "sk_algo_supported ex_sk" and prot: "is_protected ex_sk"
    by (simp_all add: ex_sk_def)
  have unlock: "\<And>i. check_outcomes ex_passwd_env i = RC_OK"
    by (simp add: ex_passwd_env_def)
  have deks: "passphrase_to_dek ex_passwd_env
        = replicate 1 None @ Some \<lparr>dek_algo = 4, dek_keylen = 0\<rparr> # []"
    by (simp add: ex_passwd_env_def)
  have empty: "dek_keylen \<lparr>dek_algo = 4, dek_keylen = 0\<rparr> = 0"
    by simp
  have yes: "empty_okay ex_passwd_env"
    by (simp add: ex_passwd_env_def)
  have before: "\<not> subkeys_unprotected (s_sec_keyblock ex_session)"
    by (simp add: subkeys_unprotected_def ex_session_def ex_defs ex_sk_def)
  from change_passphrase_empty_unprotects[OF prim sk algo unlock deks empty yes]
  obtain kb' where "change_passphrase ex_passwd_env (s_sec_keyblock ex_session) = Some (True, kb')"
    and "primary_unprotected kb'" and "subkeys_unprotected kb'"
    and "cmd_passwd ex_passwd_env ex_session
           = Some (ex_session\<lparr>s_sec_keyblock := kb', s_sec_modified := True\<rparr>)"
    by blast
  with prim sk algo prot before deks yes show ?thesis
    by simp
qed

section \<open>Signing the user ids\<close>

lemma unmark_signed_eq:
  "(\<And>l. uidnode = Some l \<Longrightarrow> l < length seen) \<Longrightarrow>
   unmark_signed k seen uidnode kb =
     (case uidnode of
        None \<Rightarrow> seen
      | Some l \<Rightarrow> if has_cert_by k kb then seen[l := clear_flag NODFLG_MARK_A (seen ! l)] else seen)
     @ unmark_certified k kb"
proof (induction kb arbitrary: seen uidnode)
  case Nil
  then show ?case by (simp split: option.splits)
next
  case (Cons node kb)
  show ?case
  proof (cases "pkttype (pkt node) = PKT_USER_ID")
    case True
    let ?u = "if has_flag node NODFLG_MARK_A then Some (length seen) else None"
    have "unmark_signed k seen uidnode (node # kb) = unmark_signed k (seen @ [node]) ?u kb"
      using True by simp
    also have "\<dots> = (case ?u of None \<Rightarrow> seen @ [node]
          | Some l \<Rightarrow> if has_cert_by k kb
                      then (seen @ [node])[l := clear_flag NODFLG_MARK_A ((seen @ [node]) ! l)]
                      else seen @ [node]) @ unmark_certified k kb"
      by (rule Cons.IH) (simp split: if_splits)
    also have "\<dots> = seen @ unmark_certified k (node # kb)"
      using True by simp
    finally show ?thesis using True by (simp split: option.splits)
  next
    case False
    show ?thesis
    proof (cases "uidnode \<noteq> None \<and> is_uid_cert node \<and> signed_by k node")
      case True
      then obtain l where l: "uidnode = Some l" by auto
      with Cons.prems have ll: "l < length seen" by simp
      let ?seen = "seen[l := clear_flag NODFLG_MARK_A (seen ! l)]"
      have "unmark_signed k seen uidnode (node # kb) = unmark_signed k (?seen @ [node]) (Some l) kb"
        using True False l by simp
      also have "\<dots> = (if has_cert_by k kb
                      then (?seen @ [node])[l := clear_flag NODFLG_MARK_A ((?seen @ [node]) ! l)]
                      else ?seen @ [node]) @ unmark_certified k kb"
        using Cons.IH[of "Some l" "?seen @ [node]"] ll by simp
      also have "(?seen @ [node])[l := clear_flag NODFLG_MARK_A ((?seen @ [node]) ! l)] = ?seen @ [node]"
        using ll by (simp add: list_update_append nth_append)
      finally show ?thesis using True False l by simp
    next
      case nomatch: False
      have "unmark_signed k seen uidnode (node # kb) = unmark_signed k (seen @ [node]) uidnode kb"
        using nomatch False by auto
      also have "\<dots> = (case uidnode of None \<Rightarrow> seen @ [node]
          | Some l \<Rightarrow> if has_cert_by k kb
                      then (seen @ [node])[l := clear_flag NODFLG_MARK_A ((seen @ [node]) ! l)]
                      else seen @ [node]) @ unmark_certified k kb"
        by (rule Cons.IH) (use Cons.prems in simp)
      finally show ?thesis
        using nomatch False Cons.prems
        by (auto simp: list_update_append nth_append split: option.splits)
    qed
  qed
qed

lemma unmark_signed_certified: "unmark_signed k [] None kb = unmark_certified k kb"
  using unmark_signed_eq[of None "[]" k kb] by simp


declare sign_marked.simps [simp del]

lemma find_marked_uid_split:
  "find_marked_uid ppk j kb = Marked_uid i p \<Longrightarrow>
   \<exists>pre u post. kb = pre @ u # post \<and> i = j + length pre
      \<and> pkttype (pkt u) = PKT_USER_ID \<and> has_flag u NODFLG_MARK_A
      \<and> (\<forall>n \<in> set pre. \<not> (pkttype (pkt n) = PKT_USER_ID \<and> has_flag n NODFLG_MARK_A))"
proof (induction kb arbitrary: ppk j)
  case Nil
  then show ?case by simp
next
  case (Cons n kb)
  show ?case
  proof (cases "pkttype (pkt n) = PKT_USER_ID \<and> has_flag n NODFLG_MARK_A")
    case True
    with Cons.prems have "i = j" by (cases "pkt n") simp_all
    with True show ?thesis by (intro exI[of _ "[]"] exI[of _ n] exI[of _ kb]) simp
  next
    case False
    then obtain ppk' where "find_marked_uid ppk' (Suc j) kb = Marked_uid i p"
      using Cons.prems by (cases "pkt n") (auto split: if_splits)
    from Cons.IH[OF this] obtain pre u post where
      "kb = pre @ u # post" "i = Suc j + length pre" "pkttype (pkt u) = PKT_USER_ID"
      "has_flag u NODFLG_MARK_A"
      "\<forall>n \<in> set pre. \<not> (pkttype (pkt n) = PKT_USER_ID \<and> has_flag n NODFLG_MARK_A)"
      by blast
    with False show ?thesis
      by (intro exI[of _ "n # pre"] exI[of _ u] exI[of _ post]) simp
  qed
qed

lemma find_marked_uid_none:
  "find_marked_uid ppk j kb = No_marked_uid p \<Longrightarrow>
   \<forall>n \<in> set kb. \<not> (pkttype (pkt n) = PKT_USER_ID \<and> has_flag n NODFLG_MARK_A)"
proof (induction kb arbitrary: ppk j)
  case Nil
  then show ?case by simp
next
  case (Cons n kb)
  from Cons.prems have nm: "\<not> (pkttype (pkt n) = PKT_USER_ID \<and> has_flag n NODFLG_MARK_A)"
    by (cases "pkt n") (auto split: if_splits)
  then obtain ppk' where "find_marked_uid ppk' (Suc j) kb = No_marked_uid p"
    using Cons.prems by (cases "pkt n") (auto split: if_splits)
  from Cons.IH[OF this] nm show ?case by simp
qed

lemma find_marked_uid_step:
  assumes "find_marked_uid ppk 0 kb = Marked_uid i p"
  shows "\<exists>pre u sigs post.
    kb = pre @ u # sigs @ post \<and> i = length pre
    \<and> pkttype (pkt u) = PKT_USER_ID \<and> has_flag u NODFLG_MARK_A
    \<and> (\<forall>n \<in> set pre. \<not> (pkttype (pkt n) = PKT_USER_ID \<and> has_flag n NODFLG_MARK_A))
    \<and> (\<forall>n \<in> set sigs. pkttype (pkt n) = PKT_SIGNATURE)
    \<and> post = dropWhile (\<lambda>n. pkttype (pkt n) = PKT_SIGNATURE) (sigs @ post)
    \<and> kb[i := clear_flag NODFLG_MARK_A (kb ! i)]
          = pre @ clear_flag NODFLG_MARK_A u # sigs @ post
    \<and> (\<forall>node. insert_kbnode (kb[i := clear_flag NODFLG_MARK_A (kb ! i)]) i node
               (Some PKT_SIGNATURE)
             = pre @ clear_flag NODFLG_MARK_A u # sigs @ node # post)"
proof -
  let ?P = "\<lambda>n. pkttype (pkt n) = PKT_SIGNATURE"
  from find_marked_uid_split[OF assms] obtain pre u rest where
    kb: "kb = pre @ u # rest" and i: "i = length pre"
    and u: "pkttype (pkt u) = PKT_USER_ID" "has_flag u NODFLG_MARK_A"
    and pre: "\<forall>n \<in> set pre. \<not> (pkttype (pkt n) = PKT_USER_ID \<and> has_flag n NODFLG_MARK_A)"
    by auto
  have rest: "rest = takeWhile ?P rest @ dropWhile ?P rest" by simp
  have sg: "\<forall>n \<in> set (takeWhile ?P rest). pkttype (pkt n) = PKT_SIGNATURE"
    by (auto dest: set_takeWhileD)
  have d: "dropWhile ?P rest = dropWhile ?P (takeWhile ?P rest @ dropWhile ?P rest)"
    by simp
  have kb': "kb = pre @ u # takeWhile ?P rest @ dropWhile ?P rest"
    using kb by simp
  have upd: "kb[i := clear_flag NODFLG_MARK_A (kb ! i)]
               = pre @ clear_flag NODFLG_MARK_A u # takeWhile ?P rest @ dropWhile ?P rest"
    unfolding kb i by simp
  have ins: "insert_kbnode (kb[i := clear_flag NODFLG_MARK_A (kb ! i)]) i node
               (Some PKT_SIGNATURE)
             = pre @ clear_flag NODFLG_MARK_A u # takeWhile ?P rest @ node # dropWhile ?P rest"
    for node
    unfolding kb i by (simp add: insert_kbnode_def)
  from kb' i u pre sg d upd ins show ?thesis by blast
qed

lemma insert_certs_marked:
  assumes "pkttype (pkt u) = PKT_USER_ID" "has_flag u NODFLG_MARK_A"
    and "\<forall>n \<in> set sigs. pkttype (pkt n) = PKT_SIGNATURE"
    and "post = dropWhile (\<lambda>n. pkttype (pkt n) = PKT_SIGNATURE) (sigs @ post)"
  shows "insert_certs outs sk (u # sigs @ post)
           = clear_flag NODFLG_MARK_A u # sigs
               @ new_kbnode (Signature (snd (make_keysig_packet (outs 0) sk 0x10)))
               # insert_certs (rest_of outs) sk post"
proof -
  let ?P = "\<lambda>n. pkttype (pkt n) = PKT_SIGNATURE"
  from assms(3) have "takeWhile ?P (sigs @ post) = sigs @ takeWhile ?P post"
    by (simp add: takeWhile_append2)
  moreover from assms(3) have "dropWhile ?P (sigs @ post) = dropWhile ?P post"
    by (simp add: dropWhile_append2)
  moreover from this assms(4) have "dropWhile ?P post = post" by simp
  moreover then have "takeWhile ?P post = []"
    by (metis append_self_conv2 takeWhile_dropWhile_id)
  ultimately show ?thesis using assms(1,2) by simp
qed

lemma insert_certs_unmarked:
  "\<forall>n \<in> set pre. \<not> (pkttype (pkt n) = PKT_USER_ID \<and> has_flag n NODFLG_MARK_A) \<Longrightarrow>
   insert_certs outs sk (pre @ kb) = pre @ insert_certs outs sk kb"
proof (induction pre)
  case Nil
  show ?case by simp
next
  case (Cons a pre)
  then have a: "\<not> (pkttype (pkt a) = PKT_USER_ID \<and> has_flag a NODFLG_MARK_A)"
    and ih: "insert_certs outs sk (pre @ kb) = pre @ insert_certs outs sk kb"
    by simp_all
  have "insert_certs outs sk (a # pre @ kb) = a # insert_certs outs sk (pre @ kb)"
    using a by (simp only: insert_certs.simps if_False)
  with ih show ?case by simp
qed

lemma insert_certs_none:
  "\<forall>n \<in> set kb. \<not> (pkttype (pkt n) = PKT_USER_ID \<and> has_flag n NODFLG_MARK_A) \<Longrightarrow>
   insert_certs outs sk kb = kb"
  using insert_certs_unmarked[of kb outs sk "[]"] by simp

lemma insert_certs_skip:
  "\<not> (pkttype (pkt n) = PKT_USER_ID \<and> has_flag n NODFLG_MARK_A) \<Longrightarrow>
   insert_certs outs sk (n # kb) = n # insert_certs outs sk kb"
  by (simp only: insert_certs.simps if_False)

text \<open>
  At a marked user id the new certification goes behind the signatures \<open>sigs\<close> that
  follow the user id; the sweep of the nodes behind the user id starts with the
  same signatures.
\<close>

lemma insert_certs_uid:
  assumes "pkttype (pkt u) = PKT_USER_ID" "has_flag u NODFLG_MARK_A"
  shows "\<exists>sigs later.
    (\<forall>n \<in> set sigs. pkttype (pkt n) = PKT_SIGNATURE)
    \<and> insert_certs (rest_of outs) sk kb = sigs @ later
    \<and> insert_certs outs sk (u # kb)
       = clear_flag NODFLG_MARK_A u # sigs
           @ new_kbnode (Signature (snd (make_keysig_packet (outs 0) sk 0x10))) # later"
proof -
  let ?P = "\<lambda>n. pkttype (pkt n) = PKT_SIGNATURE"
  have sg: "\<forall>n \<in> set (takeWhile ?P kb). pkttype (pkt n) = PKT_SIGNATURE"
    by (auto dest: set_takeWhileD)
  then have "\<forall>n \<in> set (takeWhile ?P kb).
               \<not> (pkttype (pkt n) = PKT_USER_ID \<and> has_flag n NODFLG_MARK_A)"
    by simp
  from insert_certs_unmarked[OF this, of "rest_of outs" sk "dropWhile ?P kb"]
  have "insert_certs (rest_of outs) sk kb
          = takeWhile ?P kb @ insert_certs (rest_of outs) sk (dropWhile ?P kb)"
    by simp
  moreover have "insert_certs outs sk (u # kb)
       = clear_flag NODFLG_MARK_A u # takeWhile ?P kb
           @ new_kbnode (Signature (snd (make_keysig_packet (outs 0) sk 0x10)))
           # insert_certs (rest_of outs) sk (dropWhile ?P kb)"
    using assms by simp
  ultimately show ?thesis using sg by blast
qed

declare insert_certs.simps(2) [simp del]

lemma sign_marked_ok:
  assumes "\<And>i. fst (keysigs st i) = RC_OK"
    and "sign_marked sk st = Some (rc, st')"
  shows "rc = RC_OK
    \<and> st_keyblock st' = insert_certs (keysigs st) sk (st_keyblock st)
    \<and> answers st' = answers st
    \<and> (\<forall>i. fst (keysigs st' i) = RC_OK)"
  using assms
proof (induction sk st arbitrary: rc st' rule: sign_marked.induct)
  case (1 sk st)
  show ?case
  proof (cases "find_marked_uid None 0 (st_keyblock st)")
    case (No_marked_uid ppk)
    with "1.prems"(2) have "rc = RC_OK" "st' = st\<lparr>primary_pk := ppk\<rparr>"
      by (simp_all add: sign_marked.simps[of sk st])
    with insert_certs_none[OF find_marked_uid_none[OF No_marked_uid]] "1.prems"(1)
    show ?thesis by simp
  next
    case (Marked_uid i ppk)
    with "1.prems"(2) obtain pk where pk: "ppk = Some pk"
      by (cases ppk) (simp_all add: sign_marked.simps[of sk st])
    let ?kb = "st_keyblock st"
    let ?kb1 = "?kb[i := clear_flag NODFLG_MARK_A (?kb ! i)]"
    let ?sg = "snd (make_keysig_packet (keysigs st 0) sk 0x10)"
    let ?st1 = "st\<lparr>st_keyblock := ?kb1, primary_pk := ppk, keysigs := rest_of (keysigs st)\<rparr>"
    let ?st2 = "?st1\<lparr>st_keyblock := insert_kbnode ?kb1 i (new_kbnode (Signature ?sg))
                                        (Some PKT_SIGNATURE),
                      ret_modified := True, upd_trust := True\<rparr>"
    have ok: "fst (make_keysig_packet (keysigs st 0) sk 0x10) = RC_OK"
      using "1.prems"(1)[of 0] by (simp add: make_keysig_packet_def)
    have rec: "sign_marked sk ?st2 = Some (rc, st')"
      using "1.prems"(2) Marked_uid pk ok
      by (simp add: sign_marked.simps[of sk st] case_prod_beta Let_def)
    have r: "\<And>i. fst (keysigs ?st2 i) = RC_OK"
      using "1.prems"(1) by (simp add: rest_of_def)
    have mk: "make_keysig_packet (keysigs st 0) sk 0x10 = (RC_OK, ?sg)"
      using ok by (simp add: prod_eq_iff)
    from "1.IH"[OF Marked_uid pk refl refl mk[symmetric] refl _ r rec]
    have ih: "rc = RC_OK"
      "st_keyblock st' = insert_certs (rest_of (keysigs st)) sk
                           (insert_kbnode ?kb1 i (new_kbnode (Signature ?sg))
                              (Some PKT_SIGNATURE))"
      "answers st' = answers st" "\<forall>i. fst (keysigs st' i) = RC_OK"
      by simp_all
    from find_marked_uid_step[OF Marked_uid] obtain pre u sigs post where
      kb: "?kb = pre @ u # sigs @ post" and i: "i = length pre"
      and u: "pkttype (pkt u) = PKT_USER_ID" "has_flag u NODFLG_MARK_A"
      and pre: "\<forall>n \<in> set pre. \<not> (pkttype (pkt n) = PKT_USER_ID \<and> has_flag n NODFLG_MARK_A)"
      and sigs: "\<forall>n \<in> set sigs. pkttype (pkt n) = PKT_SIGNATURE"
      and post: "post = dropWhile (\<lambda>n. pkttype (pkt n) = PKT_SIGNATURE) (sigs @ post)"
      and ins: "\<And>node. insert_kbnode ?kb1 i node (Some PKT_SIGNATURE)
                        = pre @ clear_flag NODFLG_MARK_A u # sigs @ node # post"
      by blast
    have "\<forall>n \<in> set (pre @ clear_flag NODFLG_MARK_A u # sigs @ [new_kbnode (Signature ?sg)]).
            \<not> (pkttype (pkt n) = PKT_USER_ID \<and> has_flag n NODFLG_MARK_A)"
      using pre sigs by (auto simp: new_kbnode_def)
    from insert_certs_unmarked[OF this, of "rest_of (keysigs st)" sk post]
    have "insert_certs (rest_of (keysigs st)) sk
            (pre @ clear_flag NODFLG_MARK_A u # sigs @ new_kbnode (Signature ?sg) # post)
          = pre @ clear_flag NODFLG_MARK_A u # sigs @ new_kbnode (Signature ?sg)
              # insert_certs (rest_of (keysigs st)) sk post"
      by simp
    moreover have "insert_certs (keysigs st) sk (pre @ u # sigs @ post)
          = pre @ clear_flag NODFLG_MARK_A u # sigs @ new_kbnode (Signature ?sg)
              # insert_certs (rest_of (keysigs st)) sk post"
      using insert_certs_unmarked[OF pre, of "keysigs st" sk "u # sigs @ post"]
        insert_certs_marked[OF u sigs post, of "keysigs st" sk]
      by simp
    ultimately show ?thesis
      using ih ins[of "new_kbnode (Signature ?sg)"] kb by simp
  qed
qed

lemma length_mark_selected [simp]: "length (mark_selected sa kb) = length kb"
  by (simp add: mark_selected_def)

lemma pkt_mark_selected [simp]: "map pkt (mark_selected sa kb) = map pkt kb"
  by (simp add: mark_selected_def comp_def)

lemma mark_selected_nth:
  "j < length kb \<Longrightarrow>
   pkt (mark_selected sa kb ! j) = pkt (kb ! j)
   \<and> deleted (mark_selected sa kb ! j) = deleted (kb ! j)
   \<and> has_flag (mark_selected sa kb ! j) NODFLG_MARK_A = (sa \<or> has_flag (kb ! j) NODFLG_SELUID)
   \<and> has_flag (mark_selected sa kb ! j) NODFLG_SELUID = has_flag (kb ! j) NODFLG_SELUID"
  by (simp add: mark_selected_def candidate_def)

lemma sel_uids_mark_selected [simp]: "sel_uids (mark_selected sa kb) = sel_uids kb"
  by (induction kb) (simp_all add: sel_uids_def mark_selected_def)

lemma sel_uids_unmark_certified [simp]: "sel_uids (unmark_certified k kb) = sel_uids kb"
  by (induction kb) (simp_all add: sel_uids_def)

lemma sel_uids_append: "sel_uids (xs @ ys) = sel_uids xs @ sel_uids ys"
  by (simp add: sel_uids_def)

lemma sel_uids_signing:
  assumes "pkttype (pkt u) = PKT_USER_ID"
  shows "sel_uids (pre @ clear_flag NODFLG_MARK_A u # sigs @ new_kbnode (Signature sg) # post)
           = sel_uids (pre @ u # sigs @ post)"
  using assms by (simp add: sel_uids_def new_kbnode_def)

lemma sign_marked_sel_uids:
  "sign_marked sk st = Some (rc, st') \<Longrightarrow> sel_uids (st_keyblock st') = sel_uids (st_keyblock st)"
proof (induction sk st arbitrary: rc st' rule: sign_marked.induct)
  case (1 sk st)
  show ?case
  proof (cases "find_marked_uid None 0 (st_keyblock st)")
    case (No_marked_uid ppk)
    with "1.prems" show ?thesis
      by (auto simp: sign_marked.simps[of sk st])
  next
    case (Marked_uid i ppk)
    with "1.prems" obtain pk where pk: "ppk = Some pk"
      by (cases ppk) (simp_all add: sign_marked.simps[of sk st])
    let ?kb = "st_keyblock st"
    let ?kb1 = "?kb[i := clear_flag NODFLG_MARK_A (?kb ! i)]"
    let ?mk = "make_keysig_packet (keysigs st 0) sk 0x10"
    let ?st1 = "st\<lparr>st_keyblock := ?kb1, primary_pk := ppk, keysigs := rest_of (keysigs st)\<rparr>"
    let ?st2 = "?st1\<lparr>st_keyblock := insert_kbnode ?kb1 i (new_kbnode (Signature (snd ?mk)))
                                        (Some PKT_SIGNATURE),
                      ret_modified := True, upd_trust := True\<rparr>"
    from find_marked_uid_step[OF Marked_uid] obtain pre u sigs post where
      kb: "?kb = pre @ u # sigs @ post" and i: "i = length pre"
      and u: "pkttype (pkt u) = PKT_USER_ID"
      and kb1: "?kb1 = pre @ clear_flag NODFLG_MARK_A u # sigs @ post"
      and ins: "insert_kbnode ?kb1 i (new_kbnode (Signature (snd ?mk))) (Some PKT_SIGNATURE)
                 = pre @ clear_flag NODFLG_MARK_A u # sigs @ new_kbnode (Signature (snd ?mk))
                     # post"
      by blast
    show ?thesis
    proof (cases "fst ?mk = RC_OK")
      case False
      with "1.prems" Marked_uid pk have "st' = ?st1"
        by (simp add: sign_marked.simps[of sk st] case_prod_beta Let_def)
      then show ?thesis
        using kb1 kb u by (simp add: sel_uids_def)
    next
      case True
      with "1.prems" Marked_uid pk have rec: "sign_marked sk ?st2 = Some (rc, st')"
        by (simp add: sign_marked.simps[of sk st] case_prod_beta Let_def)
      have mk: "(fst ?mk, snd ?mk) = ?mk" by simp
      from "1.IH"[OF Marked_uid pk refl refl mk refl _ rec] True
      have "sel_uids (st_keyblock st') = sel_uids (st_keyblock ?st2)" by simp
      then show ?thesis
        using ins sel_uids_signing[OF u, of pre sigs "snd ?mk" post] kb by simp
    qed
  qed
qed

lemma sign_loop_sel_uids:
  "sign_loop sa sks st = Some (rc, st') \<Longrightarrow> sel_uids (st_keyblock st') = sel_uids (st_keyblock st)"
proof (induction sks arbitrary: st)
  case Nil
  then show ?case by simp
next
  case (Cons sk sks)
  let ?kb2 = "unmark_certified (keyid_from_sk sk) (mark_selected sa (st_keyblock st))"
  have kb2: "sel_uids ?kb2 = sel_uids (st_keyblock st)" by simp
  show ?case
  proof (cases "count_uids_with_flag ?kb2 NODFLG_MARK_A = 0")
    case True
    with Cons.prems have "sign_loop sa sks (st\<lparr>st_keyblock := ?kb2\<rparr>) = Some (rc, st')"
      by (simp add: unmark_signed_certified Let_def)
    from Cons.IH[OF this] kb2 show ?thesis by simp
  next
    case False
    show ?thesis
    proof (cases "answers st 0")
      case no: False
      with False Cons.prems
      have "sign_loop sa sks (st\<lparr>st_keyblock := ?kb2, answers := rest_of (answers st)\<rparr>)
              = Some (rc, st')"
        by (simp add: unmark_signed_certified Let_def)
      from Cons.IH[OF this] kb2 show ?thesis by simp
    next
      case True
      let ?st = "st\<lparr>st_keyblock := ?kb2, answers := rest_of (answers st)\<rparr>"
      from True False Cons.prems obtain rc1 st1 where
        sm: "sign_marked sk ?st = Some (rc1, st1)"
        and rest: "if rc1 \<noteq> RC_OK then (rc, st') = (rc1, st1)
                   else sign_loop sa sks st1 = Some (rc, st')"
        by (auto simp: unmark_signed_certified Let_def split: option.splits if_splits)
      from sign_marked_sel_uids[OF sm] kb2
      have s1: "sel_uids (st_keyblock st1) = sel_uids (st_keyblock st)" by simp
      show ?thesis
      proof (cases "rc1 = RC_OK")
        case True
        with rest have "sign_loop sa sks st1 = Some (rc, st')" by simp
        from Cons.IH[OF this] s1 show ?thesis by simp
      next
        case False
        with rest s1 show ?thesis by simp
      qed
    qed
  qed
qed

lemma count_insert_certs: "count_uids_with_flag (insert_certs outs sk kb) NODFLG_MARK_A = 0"
proof (induction kb arbitrary: outs)
  case Nil
  show ?case by simp
next
  case (Cons n kb)
  show ?case
  proof (cases "pkttype (pkt n) = PKT_USER_ID \<and> has_flag n NODFLG_MARK_A")
    case False
    with Cons.IH[of outs] show ?thesis by (auto simp: insert_certs_skip)
  next
    case True
    then have "pkttype (pkt n) = PKT_USER_ID" "has_flag n NODFLG_MARK_A" by simp_all
    from insert_certs_uid[OF this, of outs sk kb] obtain sigs later where
      r: "insert_certs (rest_of outs) sk kb = sigs @ later"
      and e: "insert_certs outs sk (n # kb)
                = clear_flag NODFLG_MARK_A n # sigs
                    @ new_kbnode (Signature (snd (make_keysig_packet (outs 0) sk 0x10))) # later"
      by blast
    from Cons.IH[of "rest_of outs"] r
    have "count_uids_with_flag sigs NODFLG_MARK_A + count_uids_with_flag later NODFLG_MARK_A = 0"
      by (simp add: count_uids_with_flag_append)
    then show ?thesis
      unfolding e by (simp add: count_uids_with_flag_append new_kbnode_def)
  qed
qed

lemma count_zero_iff:
  "count_uids_with_flag kb f = 0
     \<longleftrightarrow> (\<forall>n \<in> set kb. \<not> (pkttype (pkt n) = PKT_USER_ID \<and> has_flag n f))"
proof (induction kb)
  case Nil
  show ?case by simp
next
  case (Cons n kb)
  have "0 \<le> count_uids_with_flag kb f" by (rule count_uids_with_flag_nonneg)
  with Cons show ?case by auto
qed

lemma sign_loop_unmarks:
  assumes "\<And>i. answers st i" and "\<And>i. fst (keysigs st i) = RC_OK"
    and "sign_loop sa sks st = Some (rc, st')"
    and "sks \<noteq> [] \<or> count_uids_with_flag (st_keyblock st) NODFLG_MARK_A = 0"
  shows "rc = RC_OK \<and> count_uids_with_flag (st_keyblock st') NODFLG_MARK_A = 0"
  using assms
proof (induction sks arbitrary: st)
  case Nil
  then show ?case by simp
next
  case (Cons sk sks)
  let ?kb2 = "unmark_certified (keyid_from_sk sk) (mark_selected sa (st_keyblock st))"
  show ?case
  proof (cases "count_uids_with_flag ?kb2 NODFLG_MARK_A = 0")
    case True
    with Cons.prems(3) have run: "sign_loop sa sks (st\<lparr>st_keyblock := ?kb2\<rparr>) = Some (rc, st')"
      by (simp add: unmark_signed_certified Let_def)
    show ?thesis
      by (rule Cons.IH[OF _ _ run]) (use Cons.prems(1,2) True in simp_all)
  next
    case False
    let ?st = "st\<lparr>st_keyblock := ?kb2, answers := rest_of (answers st)\<rparr>"
    from False Cons.prems(1)[of 0] Cons.prems(3) obtain rc1 st1 where
      sm: "sign_marked sk ?st = Some (rc1, st1)"
      and rest: "if rc1 \<noteq> RC_OK then (rc, st') = (rc1, st1)
                 else sign_loop sa sks st1 = Some (rc, st')"
      by (auto simp: unmark_signed_certified Let_def split: option.splits if_splits)
    have ok: "\<And>i. fst (keysigs ?st i) = RC_OK" using Cons.prems(2) by simp
    from sign_marked_ok[OF ok sm]
    have rc1: "rc1 = RC_OK"
      and kb1: "st_keyblock st1 = insert_certs (keysigs ?st) sk (st_keyblock ?st)"
      and a1: "answers st1 = answers ?st" and k1: "\<forall>i. fst (keysigs st1 i) = RC_OK"
      by simp_all
    from rest rc1 have run: "sign_loop sa sks st1 = Some (rc, st')" by simp
    show ?thesis
      by (rule Cons.IH[OF _ _ run])
         (use a1 k1 kb1 Cons.prems(1) in \<open>simp_all add: rest_of_def count_insert_certs\<close>)
  qed
qed


lemmas sign_eval = sign_uids_def ex_sign_env_def ex_sign_env_no_def ex_sign_env_fail_def
  ex_two_uids_def ex_node_def ex_sig_def count_selected_uids_def has_flag_def
  NODFLG_SELUID_def NODFLG_MARK_A_def mark_selected_def candidate_def set_flag_def
  clear_flag_def
  is_uid_cert_def signed_by_def ex_signer_def ex_sk_def ex_pk_def rest_of_def
  make_keysig_packet_def insert_kbnode_def new_kbnode_def sign_marked.simps

lemma count_selected_sel_uids:
  "count_selected_uids kb = int (length (filter snd (sel_uids kb)))"
  unfolding count_selected_uids_def sel_uids_def
  by (induction kb) simp_all

text \<open>
  When the operator confirms and every signature is made, the marking loop has set
  \<open>MARK_A\<close> on every node (no user id was selected), and the signing loop has
  cleared it on the user ids only: the primary key and the old signatures carry it
  on return. The new certifications stand behind the signatures that the user ids
  had.
\<close>

lemma sign_uids_signed_leaves_marks:
  "sign_uids ex_sign_env ex_two_uids [] False =
     Some \<lparr>sr_rc = RC_OK,
            sr_keyblock =
              [ex_node (PublicKey ex_pk) NODFLG_MARK_A,
               ex_node (UserId \<lparr>name = ''Alice''\<rparr>) 0,
               ex_node (ex_sig (0x11, 0x22)) NODFLG_MARK_A,
               new_kbnode (Signature \<lparr>sig_keyid = (0xC1, 0xC2), sig_class = 0x10,
                                       sig_timestamp = 0x1000\<rparr>),
               ex_node (UserId \<lparr>name = ''Bob''\<rparr>) 0,
               ex_node (ex_sig (0x11, 0x22)) NODFLG_MARK_A,
               new_kbnode (Signature \<lparr>sig_keyid = (0xC1, 0xC2), sig_class = 0x10,
                                       sig_timestamp = 0x1000\<rparr>)],
            sr_modified = True, sr_trust_cleared = True\<rparr>"
  by (simp add: sign_eval)

lemma find_marked_uid_primary:
  "find_marked_uid ppk j kb = No_marked_uid p \<Longrightarrow> ppk \<noteq> None \<or> has_pubkey kb \<Longrightarrow> p \<noteq> None"
proof (induction kb arbitrary: ppk j)
  case Nil
  then show ?case by (simp add: has_pubkey_def)
next
  case (Cons n kb)
  show ?case
  proof (cases "pkt n")
    case (PublicKey pk)
    with Cons.prems(1) have "find_marked_uid (Some pk) (Suc j) kb = No_marked_uid p" by simp
    from Cons.IH[OF this] show ?thesis by simp
  next
    case (UserId u)
    with Cons.prems have "find_marked_uid ppk (Suc j) kb = No_marked_uid p"
      and "ppk \<noteq> None \<or> has_pubkey kb"
      by (auto simp: has_pubkey_def split: if_splits)
    from Cons.IH[OF this] show ?thesis .
  qed (use Cons in \<open>auto simp: has_pubkey_def\<close>)
qed

lemma find_marked_uid_asserted:
  "find_marked_uid ppk j kb = Marked_uid i (Some pk) \<Longrightarrow> ppk \<noteq> None \<or> has_pubkey kb"
proof (induction kb arbitrary: ppk j)
  case Nil
  then show ?case by simp
next
  case (Cons n kb)
  show ?case
  proof (cases "pkt n")
    case (PublicKey k)
    then show ?thesis by (simp add: has_pubkey_def)
  next
    case (UserId u)
    show ?thesis
    proof (cases "has_flag n NODFLG_MARK_A")
      case True
      with UserId Cons.prems show ?thesis by simp
    next
      case False
      with UserId Cons.prems have "find_marked_uid ppk (Suc j) kb = Marked_uid i (Some pk)"
        by simp
      from Cons.IH[OF this] show ?thesis by (auto simp: has_pubkey_def)
    qed
  qed (use Cons in \<open>auto simp: has_pubkey_def\<close>)
qed

lemma has_pubkey_append [simp]: "has_pubkey (xs @ ys) = (has_pubkey xs \<or> has_pubkey ys)"
  by (auto simp: has_pubkey_def)

lemma has_pubkey_Cons [simp]:
  "has_pubkey (n # kb) = (pkttype (pkt n) = PKT_PUBLIC_KEY \<or> has_pubkey kb)"
  by (auto simp: has_pubkey_def)

lemma pkt_unmark_certified [simp]: "map pkt (unmark_certified k kb) = map pkt kb"
  by (induction kb) simp_all

lemma length_unmark_certified [simp]: "length (unmark_certified k kb) = length kb"
  by (induction kb) simp_all

lemma sign_marked_trust:
  assumes "sign_marked sk st = Some (rc, st')"
    and "upd_trust st \<longrightarrow> has_pubkey (st_keyblock st)"
  shows "length (st_keyblock st) \<le> length (st_keyblock st')
    \<and> (upd_trust st' \<longleftrightarrow> upd_trust st \<or> length (st_keyblock st) < length (st_keyblock st'))
    \<and> (upd_trust st' \<longrightarrow> has_pubkey (st_keyblock st') \<and> primary_pk st' \<noteq> None)"
  using assms
proof (induction sk st arbitrary: rc st' rule: sign_marked.induct)
  case (1 sk st)
  show ?case
  proof (cases "find_marked_uid None 0 (st_keyblock st)")
    case (No_marked_uid ppk)
    with "1.prems"(1) have st': "st' = st\<lparr>primary_pk := ppk\<rparr>"
      by (simp add: sign_marked.simps[of sk st])
    from find_marked_uid_primary[OF No_marked_uid] "1.prems"(2)
    have "upd_trust st \<longrightarrow> ppk \<noteq> None" by simp
    with st' "1.prems"(2) show ?thesis by simp
  next
    case (Marked_uid i ppk)
    with "1.prems"(1) obtain pk where pk: "ppk = Some pk"
      by (cases ppk) (simp_all add: sign_marked.simps[of sk st])
    let ?kb = "st_keyblock st"
    let ?kb1 = "?kb[i := clear_flag NODFLG_MARK_A (?kb ! i)]"
    let ?mk = "make_keysig_packet (keysigs st 0) sk 0x10"
    let ?st1 = "st\<lparr>st_keyblock := ?kb1, primary_pk := ppk, keysigs := rest_of (keysigs st)\<rparr>"
    let ?kb2 = "insert_kbnode ?kb1 i (new_kbnode (Signature (snd ?mk))) (Some PKT_SIGNATURE)"
    let ?st2 = "?st1\<lparr>st_keyblock := ?kb2, ret_modified := True, upd_trust := True\<rparr>"
    from find_marked_uid_asserted[OF Marked_uid[unfolded pk]] have hp: "has_pubkey ?kb" by simp
    from find_marked_uid_step[OF Marked_uid] obtain pre u sigs post where
      kb: "?kb = pre @ u # sigs @ post" and i: "i = length pre"
      and u: "pkttype (pkt u) = PKT_USER_ID"
      and kb1: "?kb1 = pre @ clear_flag NODFLG_MARK_A u # sigs @ post"
      and kb2: "?kb2 = pre @ clear_flag NODFLG_MARK_A u # sigs
                         @ new_kbnode (Signature (snd ?mk)) # post"
      by blast
    have hpx: "has_pubkey pre \<or> has_pubkey sigs \<or> has_pubkey post"
      using hp u by (simp add: kb)
    have hp1: "has_pubkey ?kb1" by (subst kb1) (use hpx in auto)
    have hp2: "has_pubkey ?kb2" by (subst kb2) (use hpx in auto)
    have len1: "length ?kb1 = length ?kb" by simp
    have "length ?kb2 = Suc (length (pre @ u # sigs @ post))" by (subst kb2) simp
    then have len2: "length ?kb2 = Suc (length ?kb)" by (simp only: kb)
    show ?thesis
    proof (cases "fst ?mk = RC_OK")
      case False
      with "1.prems"(1) Marked_uid pk have "st' = ?st1"
        by (simp add: sign_marked.simps[of sk st] case_prod_beta Let_def)
      with hp1 pk len1 show ?thesis by simp
    next
      case True
      with "1.prems"(1) Marked_uid pk have rec: "sign_marked sk ?st2 = Some (rc, st')"
        by (simp add: sign_marked.simps[of sk st] case_prod_beta Let_def)
      have mk: "(fst ?mk, snd ?mk) = ?mk" by simp
      have inv2: "upd_trust ?st2 \<longrightarrow> has_pubkey (st_keyblock ?st2)" using hp2 by simp
      from "1.IH"[OF Marked_uid pk refl refl mk refl _ rec inv2] True
      have "length ?kb2 \<le> length (st_keyblock st')" "upd_trust st'"
        "has_pubkey (st_keyblock st') \<and> primary_pk st' \<noteq> None"
        by simp_all
      with len2 show ?thesis by simp
    qed
  qed
qed


lemma has_pubkey_pkts: "map pkt kb' = map pkt kb \<Longrightarrow> has_pubkey kb' = has_pubkey kb"
proof (induction kb arbitrary: kb')
  case Nil
  then show ?case by simp
next
  case (Cons n kb)
  then obtain n' kb'' where "kb' = n' # kb''" "pkt n' = pkt n" "map pkt kb'' = map pkt kb"
    by (auto simp: map_eq_Cons_conv)
  with Cons.IH[of kb''] show ?case by simp
qed

lemma sign_loop_trust:
  assumes "sign_loop sa sks st = Some (rc, st')"
    and "upd_trust st \<longrightarrow> has_pubkey (st_keyblock st) \<and> primary_pk st \<noteq> None"
  shows "length (st_keyblock st) \<le> length (st_keyblock st')
    \<and> (upd_trust st' \<longleftrightarrow> upd_trust st \<or> length (st_keyblock st) < length (st_keyblock st'))
    \<and> (upd_trust st' \<longrightarrow> has_pubkey (st_keyblock st') \<and> primary_pk st' \<noteq> None)"
  using assms
proof (induction sks arbitrary: st)
  case Nil
  then show ?case by simp
next
  case (Cons sk sks)
  let ?kb2 = "unmark_certified (keyid_from_sk sk) (mark_selected sa (st_keyblock st))"
  have len2: "length ?kb2 = length (st_keyblock st)" by simp
  have "map pkt ?kb2 = map pkt (st_keyblock st)" by simp
  then have hp2: "has_pubkey ?kb2 = has_pubkey (st_keyblock st)" by (rule has_pubkey_pkts)
  show ?case
  proof (cases "count_uids_with_flag ?kb2 NODFLG_MARK_A = 0")
    case True
    with Cons.prems(1) have run: "sign_loop sa sks (st\<lparr>st_keyblock := ?kb2\<rparr>) = Some (rc, st')"
      by (simp add: unmark_signed_certified Let_def)
    have "upd_trust (st\<lparr>st_keyblock := ?kb2\<rparr>) \<longrightarrow>
            has_pubkey (st_keyblock (st\<lparr>st_keyblock := ?kb2\<rparr>))
            \<and> primary_pk (st\<lparr>st_keyblock := ?kb2\<rparr>) \<noteq> None"
      using Cons.prems(2) hp2 by simp
    from Cons.IH[OF run this] len2 show ?thesis by simp
  next
    case False
    let ?st = "st\<lparr>st_keyblock := ?kb2, answers := rest_of (answers st)\<rparr>"
    have inv: "upd_trust ?st \<longrightarrow> has_pubkey (st_keyblock ?st) \<and> primary_pk ?st \<noteq> None"
      using Cons.prems(2) hp2 by simp
    show ?thesis
    proof (cases "answers st 0")
      case no: False
      with False Cons.prems(1) have run: "sign_loop sa sks ?st = Some (rc, st')"
        by (simp add: unmark_signed_certified Let_def)
      from Cons.IH[OF run inv] len2 show ?thesis by simp
    next
      case True
      with False Cons.prems(1) obtain rc1 st1 where
        sm: "sign_marked sk ?st = Some (rc1, st1)"
        and rest: "if rc1 \<noteq> RC_OK then (rc, st') = (rc1, st1)
                   else sign_loop sa sks st1 = Some (rc, st')"
        by (auto simp: unmark_signed_certified Let_def split: option.splits if_splits)
      from inv have "upd_trust ?st \<longrightarrow> has_pubkey (st_keyblock ?st)" by simp
      from sign_marked_trust[OF sm this] len2
      have t1: "length (st_keyblock st) \<le> length (st_keyblock st1)"
        "upd_trust st1 \<longleftrightarrow> upd_trust st \<or> length (st_keyblock st) < length (st_keyblock st1)"
        "upd_trust st1 \<longrightarrow> has_pubkey (st_keyblock st1) \<and> primary_pk st1 \<noteq> None"
        by simp_all
      show ?thesis
      proof (cases "rc1 = RC_OK")
        case False
        with rest t1 show ?thesis by simp
      next
        case True
        with rest have run: "sign_loop sa sks st1 = Some (rc, st')" by simp
        from Cons.IH[OF run t1(3)]
        have "length (st_keyblock st1) \<le> length (st_keyblock st')"
          "upd_trust st' \<longleftrightarrow> upd_trust st1 \<or> length (st_keyblock st1) < length (st_keyblock st')"
          "upd_trust st' \<longrightarrow> has_pubkey (st_keyblock st') \<and> primary_pk st' \<noteq> None"
          by simp_all
        with t1(1,2) show ?thesis by auto
      qed
    qed
  qed
qed

lemma sign_loop_rc_ok:
  assumes "\<And>i. fst (keysigs st i) = RC_OK"
    and "sign_loop sa sks st = Some (rc, st')"
  shows "rc = RC_OK"
  using assms
proof (induction sks arbitrary: st)
  case Nil
  then show ?case by simp
next
  case (Cons sk sks)
  let ?kb2 = "unmark_certified (keyid_from_sk sk) (mark_selected sa (st_keyblock st))"
  show ?case
  proof (cases "count_uids_with_flag ?kb2 NODFLG_MARK_A = 0 \<or> \<not> answers st 0")
    case True
    then obtain st2 where "sign_loop sa sks st2 = Some (rc, st')" and "keysigs st2 = keysigs st"
      using Cons.prems(2) by (auto simp: unmark_signed_certified Let_def split: if_splits)
    with Cons.IH[of st2] Cons.prems(1) show ?thesis by simp
  next
    case False
    let ?st = "st\<lparr>st_keyblock := ?kb2, answers := rest_of (answers st)\<rparr>"
    from False Cons.prems(2) obtain rc1 st1 where
      sm: "sign_marked sk ?st = Some (rc1, st1)"
      and rest: "if rc1 \<noteq> RC_OK then (rc, st') = (rc1, st1)
                 else sign_loop sa sks st1 = Some (rc, st')"
      by (auto simp: unmark_signed_certified Let_def split: option.splits if_splits)
    have ok: "\<And>i. fst (keysigs ?st i) = RC_OK" using Cons.prems(1) by simp
    from sign_marked_ok[OF ok sm] have "rc1 = RC_OK" "\<And>i. fst (keysigs st1 i) = RC_OK"
      by simp_all
    with rest Cons.IH[of st1] show ?thesis by simp
  qed
qed

text \<open>
  Claim C7 as stated fails: a signature that cannot be made sends \<^verbatim>\<open>sign_uids\<close>
  to \<^verbatim>\<open>leave\<close>, past the call of \<^verbatim>\<open>clear_trust_checked_flag\<close>. Here the first
  user id is signed (the keyblock has grown by one node and \<^verbatim>\<open>*ret_modified\<close> is
  set), the signature for the second one fails, and the trust flag is not cleared.
\<close>

theorem sign_uids_failure_keeps_trust_flag:
  "sign_uids ex_sign_env_fail ex_two_uids [] False =
     Some \<lparr>sr_rc = G10ERR_OTHER 1,
            sr_keyblock =
              [ex_node (PublicKey ex_pk) NODFLG_MARK_A,
               ex_node (UserId \<lparr>name = ''Alice''\<rparr>) 0,
               ex_node (ex_sig (0x11, 0x22)) NODFLG_MARK_A,
               new_kbnode (Signature \<lparr>sig_keyid = (0xC1, 0xC2), sig_class = 0x10,
                                       sig_timestamp = 0x1000\<rparr>),
               ex_node (UserId \<lparr>name = ''Bob''\<rparr>) 0,
               ex_node (ex_sig (0x11, 0x22)) NODFLG_MARK_A],
            sr_modified = True, sr_trust_cleared = False\<rparr>
   \<and> length ex_two_uids = 5"
  by (simp add: sign_eval)

text \<open>
  Claim C7, as amended. The keyblock that \<^verbatim>\<open>sign_uids\<close> leaves is longer than the
  one it got by the signatures it has made. It calls
  \<^verbatim>\<open>clear_trust_checked_flag\<close> only if it has made a signature; and in a run in
  which no signature production fails it calls it if and only if it has made one.
\<close>

theorem trust_flag_cleared:
  assumes run: "sign_uids env keyblock locusr modified = Some r"
  shows "length keyblock \<le> length (sr_keyblock r)
    \<and> (sr_trust_cleared r \<longrightarrow> length keyblock < length (sr_keyblock r))
    \<and> ((\<forall>i. fst (keysig_outcomes env i) = RC_OK) \<longrightarrow>
         (sr_trust_cleared r \<longleftrightarrow> length keyblock < length (sr_keyblock r)))"
proof (cases "fst (build_sk_list env locusr) = RC_OK")
  case False
  with run show ?thesis
    by (auto simp: sign_uids_def case_prod_beta Let_def)
next
  case True
  let ?st = "\<lparr>st_keyblock = keyblock, ret_modified = modified, upd_trust = False,
               primary_pk = None, answers = answer_is_yes env, keysigs = keysig_outcomes env\<rparr>"
  let ?sa = "count_selected_uids keyblock = 0"
  from True run obtain rc st' where
    loop: "sign_loop ?sa (snd (build_sk_list env locusr)) ?st = Some (rc, st')"
    and kb: "sr_keyblock r = st_keyblock st'"
    and cl: "sr_trust_cleared r \<longleftrightarrow> rc = RC_OK \<and> upd_trust st' \<and> primary_pk st' \<noteq> None"
    by (auto simp: sign_uids_def case_prod_beta Let_def split: option.splits if_splits)
  have "upd_trust ?st \<longrightarrow> has_pubkey (st_keyblock ?st) \<and> primary_pk ?st \<noteq> None" by simp
  from sign_loop_trust[OF loop this]
  have t: "length keyblock \<le> length (st_keyblock st')"
    "upd_trust st' \<longleftrightarrow> length keyblock < length (st_keyblock st')"
    "upd_trust st' \<longrightarrow> primary_pk st' \<noteq> None"
    by simp_all
  have "rc = RC_OK" if "\<forall>i. fst (keysig_outcomes env i) = RC_OK"
    by (rule sign_loop_rc_ok[OF _ loop]) (use that in simp)
  with t kb cl show ?thesis by auto
qed


theorem trust_flag_cleared_witness:
  "sign_uids ex_sign_env ex_two_uids [] False \<noteq> None
   \<and> (\<forall>i. fst (keysig_outcomes ex_sign_env i) = RC_OK)
   \<and> length ex_two_uids = 5
   \<and> length (sr_keyblock (the (sign_uids ex_sign_env ex_two_uids [] False))) = 7
   \<and> sr_trust_cleared (the (sign_uids ex_sign_env ex_two_uids [] False))
   \<and> sign_uids ex_sign_env_no ex_two_uids [] False \<noteq> None
   \<and> (\<forall>i. fst (keysig_outcomes ex_sign_env_no i) = RC_OK)
   \<and> length (sr_keyblock (the (sign_uids ex_sign_env_no ex_two_uids [] False))) = 5
   \<and> \<not> sr_trust_cleared (the (sign_uids ex_sign_env_no ex_two_uids [] False))"
proof -
  have ok: "\<forall>i. fst (keysig_outcomes ex_sign_env i) = RC_OK"
    and ok': "\<forall>i. fst (keysig_outcomes ex_sign_env_no i) = RC_OK"
    by (simp_all add: ex_sign_env_def ex_sign_env_no_def)
  have l: "length ex_two_uids = 5"
    by (simp add: ex_two_uids_def)
  note run = sign_uids_signed_leaves_marks
  have run': "sign_uids ex_sign_env_no ex_two_uids [] False =
     Some \<lparr>sr_rc = RC_OK, sr_keyblock = map (set_flag NODFLG_MARK_A) ex_two_uids,
            sr_modified = False, sr_trust_cleared = False\<rparr>"
    by (simp add: sign_eval)
  have l7: "length (sr_keyblock (the (sign_uids ex_sign_env ex_two_uids [] False))) = 7"
    by (simp add: run)
  have l5: "length (sr_keyblock (the (sign_uids ex_sign_env_no ex_two_uids [] False))) = 5"
    by (simp add: run' l)
  from trust_flag_cleared[OF run] ok l l7
  have c: "sr_trust_cleared (the (sign_uids ex_sign_env ex_two_uids [] False))"
    by (simp add: run)
  from trust_flag_cleared[OF run'] ok' l l5
  have c': "\<not> sr_trust_cleared (the (sign_uids ex_sign_env_no ex_two_uids [] False))"
    by (simp add: run')
  from ok ok' l l7 l5 c c' show ?thesis
    by (simp add: run run')
qed

lemma mark_selected_Cons:
  "mark_selected sa (n # kb) =
     (if candidate sa n then set_flag NODFLG_MARK_A n
      else clear_flag NODFLG_MARK_A n) # mark_selected sa kb"
  by (simp add: mark_selected_def)

lemma mark_selected_Nil [simp]: "mark_selected sa [] = []"
  by (simp add: mark_selected_def)

lemma is_uid_cert_pkt: "pkt n' = pkt n \<Longrightarrow> is_uid_cert n' = is_uid_cert n"
  by (simp add: is_uid_cert_def)

lemma signed_by_pkt: "pkt n' = pkt n \<Longrightarrow> signed_by k n' = signed_by k n"
  by (simp add: signed_by_def)

lemma count_certs_pkts: "map pkt kb' = map pkt kb \<Longrightarrow> count_certs k kb' = count_certs k kb"
proof (induction kb arbitrary: kb')
  case Nil
  then show ?case by simp
next
  case (Cons n kb)
  then obtain n' kb'' where kb': "kb' = n' # kb''" and n': "pkt n' = pkt n"
    and r: "map pkt kb'' = map pkt kb"
    by (auto simp: map_eq_Cons_conv)
  from Cons.IH[OF r] n' show ?case
    by (simp add: kb' is_uid_cert_pkt[OF n'] signed_by_pkt[OF n'])
qed

lemma cert_counts_pkts: "map pkt kb' = map pkt kb \<Longrightarrow> cert_counts k kb' = cert_counts k kb"
proof (induction kb arbitrary: kb')
  case Nil
  then show ?case by simp
next
  case (Cons n kb)
  then obtain n' kb'' where kb': "kb' = n' # kb''" and n': "pkt n' = pkt n"
    and r: "map pkt kb'' = map pkt kb"
    by (auto simp: map_eq_Cons_conv)
  from Cons.IH[OF r] count_certs_pkts[OF r, of k] n' show ?case
    by (simp add: kb')
qed

lemma has_cert_by_count: "has_cert_by k kb \<longleftrightarrow> count_certs k kb \<noteq> 0"
  by (induction kb) simp_all

lemma has_cert_by_mark [simp]: "has_cert_by k (mark_selected sa kb) = has_cert_by k kb"
  using count_certs_pkts[of "mark_selected sa kb" kb k] by (simp add: has_cert_by_count)

lemma count_certs_sigs:
  "\<forall>n \<in> set sigs. pkttype (pkt n) = PKT_SIGNATURE \<Longrightarrow>
   count_certs k (sigs @ kb) = count_certs k sigs + count_certs k kb"
  by (induction sigs) simp_all

lemma cert_counts_sigs:
  "\<forall>n \<in> set sigs. pkttype (pkt n) = PKT_SIGNATURE \<Longrightarrow>
   cert_counts k (sigs @ kb) = cert_counts k kb"
  by (induction sigs) simp_all

lemma sel_uids_sigs:
  "\<forall>n \<in> set sigs. pkttype (pkt n) = PKT_SIGNATURE \<Longrightarrow> sel_uids (sigs @ kb) = sel_uids kb"
  by (induction sigs) (simp_all add: sel_uids_def)

lemma new_sig_cert:
  "is_uid_cert (new_kbnode (Signature (snd (make_keysig_packet out sk 0x10))))"
  "signed_by k' (new_kbnode (Signature (snd (make_keysig_packet out sk 0x10))))
     \<longleftrightarrow> k' = keyid_from_sk sk"
  "pkttype (pkt (new_kbnode (Signature sg))) = PKT_SIGNATURE"
  by (auto simp: is_uid_cert_def signed_by_def new_kbnode_def make_keysig_packet_def prod_eq_iff)

text \<open>
  The counts do not depend on where among the signatures of a user id the new
  certification stands.
\<close>

lemma count_certs_insert_certs_uid:
  assumes "pkttype (pkt u) = PKT_USER_ID"
  shows "count_certs k (insert_certs outs sk (u # kb)) = 0"
proof (cases "has_flag u NODFLG_MARK_A")
  case True
  from insert_certs_uid[OF assms True, of outs sk kb] assms show ?thesis by auto
next
  case False
  with assms show ?thesis by (simp add: insert_certs_skip)
qed

lemma cert_counts_insert_certs_marked:
  assumes "pkttype (pkt u) = PKT_USER_ID" "has_flag u NODFLG_MARK_A"
  shows "cert_counts k (insert_certs outs sk (u # kb))
           = ((if k = keyid_from_sk sk then 1 else 0)
                + count_certs k (insert_certs (rest_of outs) sk kb))
             # cert_counts k (insert_certs (rest_of outs) sk kb)"
proof -
  let ?new = "new_kbnode (Signature (snd (make_keysig_packet (outs 0) sk 0x10)))"
  from insert_certs_uid[OF assms, of outs sk kb] obtain sigs later where
    sg: "\<forall>n \<in> set sigs. pkttype (pkt n) = PKT_SIGNATURE"
    and r: "insert_certs (rest_of outs) sk kb = sigs @ later"
    and e: "insert_certs outs sk (u # kb) = clear_flag NODFLG_MARK_A u # sigs @ ?new # later"
    by blast
  have "count_certs k (sigs @ ?new # later)
          = (if k = keyid_from_sk sk then 1 else 0) + count_certs k (sigs @ later)"
    by (simp add: count_certs_sigs[OF sg] new_sig_cert)
  moreover have "cert_counts k (sigs @ ?new # later) = cert_counts k (sigs @ later)"
    by (simp add: cert_counts_sigs[OF sg] new_sig_cert)
  ultimately show ?thesis
    unfolding e r using assms(1) by simp
qed

lemma sel_uids_insert_certs [simp]: "sel_uids (insert_certs outs sk kb) = sel_uids kb"
proof (induction kb arbitrary: outs)
  case Nil
  show ?case by simp
next
  case (Cons n kb)
  show ?case
  proof (cases "pkttype (pkt n) = PKT_USER_ID \<and> has_flag n NODFLG_MARK_A")
    case False
    with Cons.IH[of outs] show ?thesis by (simp add: insert_certs_skip sel_uids_def)
  next
    case True
    then have u: "pkttype (pkt n) = PKT_USER_ID" "has_flag n NODFLG_MARK_A" by simp_all
    from insert_certs_uid[OF u, of outs sk kb] obtain sigs later where
      sg: "\<forall>n \<in> set sigs. pkttype (pkt n) = PKT_SIGNATURE"
      and r: "insert_certs (rest_of outs) sk kb = sigs @ later"
      and e: "insert_certs outs sk (n # kb)
                = clear_flag NODFLG_MARK_A n # sigs
                    @ new_kbnode (Signature (snd (make_keysig_packet (outs 0) sk 0x10))) # later"
      by blast
    have "sel_uids (sigs @ new_kbnode (Signature (snd (make_keysig_packet (outs 0) sk 0x10)))
                      # later) = sel_uids (sigs @ later)"
      by (simp add: sel_uids_sigs[OF sg]) (simp add: sel_uids_def new_kbnode_def)
    with Cons.IH[of "rest_of outs"] r u(1) show ?thesis
      unfolding e by (simp add: sel_uids_def)
  qed
qed

lemma count_certs_pass:
  "count_certs k' (insert_certs outs sk (unmark_certified k (mark_selected sa kb)))
     = count_certs k' kb"
proof (induction kb arbitrary: outs)
  case Nil
  show ?case by simp
next
  case (Cons n kb)
  show ?case
  proof (cases "pkttype (pkt n) = PKT_USER_ID")
    case True
    then show ?thesis by (simp add: mark_selected_Cons insert_certs_skip
              cert_counts_insert_certs_marked count_certs_insert_certs_uid)
  next
    case False
    have "is_uid_cert (set_flag NODFLG_MARK_A n) = is_uid_cert n"
      "is_uid_cert (clear_flag NODFLG_MARK_A n) = is_uid_cert n"
      "signed_by k' (set_flag NODFLG_MARK_A n) = signed_by k' n"
      "signed_by k' (clear_flag NODFLG_MARK_A n) = signed_by k' n"
      by (simp_all add: is_uid_cert_def signed_by_def)
    with False Cons.IH show ?thesis by (simp add: mark_selected_Cons insert_certs_skip
              cert_counts_insert_certs_marked count_certs_insert_certs_uid)
  qed
qed

lemma cert_counts_pass_signer:
  "cert_counts (keyid_from_sk sk) (insert_certs outs sk
       (unmark_certified (keyid_from_sk sk) (mark_selected sa kb)))
     = cert_counts_signed sa (keyid_from_sk sk) kb"
proof (induction kb arbitrary: outs)
  case Nil
  show ?case by simp
next
  case (Cons n kb)
  let ?k = "keyid_from_sk sk"
  show ?case
  proof (cases "pkttype (pkt n) = PKT_USER_ID")
    case False
    with Cons.IH show ?thesis by (simp add: mark_selected_Cons insert_certs_skip
              cert_counts_insert_certs_marked count_certs_insert_certs_uid)
  next
    case True
    show ?thesis
    proof (cases "candidate sa n")
      case cand: True
      show ?thesis
      proof (cases "count_certs ?k kb = 0")
        case zero: True
        then have nc: "\<not> has_cert_by ?k kb" by (simp add: has_cert_by_count)
        from zero True nc cand show ?thesis
          using Cons.IH[of "rest_of outs"] count_certs_pass[of ?k "rest_of outs" sk ?k sa kb]
          by (simp add: mark_selected_Cons new_sig_cert insert_certs_skip
              cert_counts_insert_certs_marked count_certs_insert_certs_uid)
      next
        case False
        then have hc: "has_cert_by ?k kb" by (simp add: has_cert_by_count)
        from False True hc cand show ?thesis
          using Cons.IH[of outs] count_certs_pass[of ?k outs sk ?k sa kb]
          by (simp add: mark_selected_Cons insert_certs_skip
              cert_counts_insert_certs_marked count_certs_insert_certs_uid)
      qed
    next
      case False
      with True show ?thesis
        using Cons.IH[of outs] count_certs_pass[of ?k outs sk ?k sa kb]
        by (simp add: mark_selected_Cons insert_certs_skip
              cert_counts_insert_certs_marked count_certs_insert_certs_uid)
    qed
  qed
qed

lemma cert_counts_pass_other:
  "k' \<noteq> keyid_from_sk sk \<Longrightarrow>
   cert_counts k' (insert_certs outs sk
       (unmark_certified (keyid_from_sk sk) (mark_selected sa kb)))
     = cert_counts k' kb"
proof (induction kb arbitrary: outs)
  case Nil
  show ?case by simp
next
  case (Cons n kb)
  let ?k = "keyid_from_sk sk"
  show ?case
  proof (cases "pkttype (pkt n) = PKT_USER_ID")
    case False
    with Cons show ?thesis by (simp add: mark_selected_Cons insert_certs_skip
              cert_counts_insert_certs_marked count_certs_insert_certs_uid)
  next
    case True
    then show ?thesis
      using Cons.IH[OF Cons.prems, of outs] Cons.IH[OF Cons.prems, of "rest_of outs"]
        count_certs_pass[of k' outs sk ?k sa kb]
        count_certs_pass[of k' "rest_of outs" sk ?k sa kb] Cons.prems
      by (simp add: mark_selected_Cons new_sig_cert insert_certs_skip
              cert_counts_insert_certs_marked count_certs_insert_certs_uid)
  qed
qed

lemma length_cert_counts: "length (cert_counts k kb) = length (sel_uids kb)"
  by (induction kb) (simp_all add: sel_uids_def)

lemma cert_counts_signed_eq:
  "cert_counts_signed sa k kb =
     map (\<lambda>(c, s). if (sa \<or> snd s) \<and> c = 0 then 1 else c) (zip (cert_counts k kb) (sel_uids kb))"
  by (induction kb) (simp_all add: sel_uids_def candidate_def)

lemma sign_once_idem:
  "length cs = length ss \<Longrightarrow>
   map (\<lambda>(c, s). if (sa \<or> snd s) \<and> c = 0 then 1 else c)
     (zip (map (\<lambda>(c, s). if (sa \<or> snd s) \<and> c = 0 then 1 else c) (zip cs ss)) ss)
   = map (\<lambda>(c :: nat, s). if (sa \<or> snd s) \<and> c = 0 then 1 else c) (zip cs ss)"
  by (induction cs ss rule: list_induct2) simp_all

lemma cert_counts_signed_cong:
  "cert_counts k kb' = cert_counts k kb \<Longrightarrow> sel_uids kb' = sel_uids kb \<Longrightarrow>
   cert_counts_signed sa k kb' = cert_counts_signed sa k kb"
  by (simp add: cert_counts_signed_eq)

lemma cert_counts_signed_idem:
  "cert_counts k kb' = cert_counts_signed sa k kb \<Longrightarrow> sel_uids kb' = sel_uids kb \<Longrightarrow>
   cert_counts_signed sa k kb' = cert_counts_signed sa k kb"
  using sign_once_idem[OF length_cert_counts[of k kb], of sa]
  by (simp add: cert_counts_signed_eq)

lemma nothing_to_sign_iff:
  "nothing_to_sign sa k kb \<longleftrightarrow> cert_counts_signed sa k kb = cert_counts k kb"
proof -
  have "count_uids_with_flag (unmark_certified k (mark_selected sa kb)) NODFLG_MARK_A = 0
          \<longleftrightarrow> cert_counts_signed sa k kb = cert_counts k kb"
  proof (induction kb)
    case Nil
    show ?case by simp
  next
    case (Cons n kb)
    have nn: "0 \<le> count_uids_with_flag (unmark_certified k (mark_selected sa kb)) NODFLG_MARK_A"
      by (rule count_uids_with_flag_nonneg)
    show ?case
    proof (cases "pkttype (pkt n) = PKT_USER_ID")
      case False
      with Cons show ?thesis by (simp add: mark_selected_Cons)
    next
      case True
      show ?thesis
      proof (cases "candidate sa n \<and> count_certs k kb = 0")
        case sign: True
        then have "\<not> has_cert_by k kb" by (simp add: has_cert_by_count)
        with sign True nn show ?thesis by (simp add: mark_selected_Cons)
      next
        case False
        then have "\<not> candidate sa n \<or> has_cert_by k kb" by (simp add: has_cert_by_count)
        with False True Cons show ?thesis by (auto simp: mark_selected_Cons)
      qed
    qed
  qed
  then show ?thesis by (simp add: nothing_to_sign_def unmark_signed_certified)
qed

lemma pkt_insert_certs_none:
  "count_uids_with_flag kb NODFLG_MARK_A = 0 \<Longrightarrow> insert_certs outs sk kb = kb"
  by (rule insert_certs_none) (simp add: count_zero_iff)

lemma sign_loop_counts:
  assumes "\<And>i. answers st i" and "\<And>i. fst (keysigs st i) = RC_OK"
    and "sign_loop sa sks st = Some (rc, st')"
  shows "cert_counts k (st_keyblock st') =
           (if k \<in> keyid_from_sk ` set sks then cert_counts_signed sa k (st_keyblock st)
            else cert_counts k (st_keyblock st))"
  using assms
proof (induction sks arbitrary: st)
  case Nil
  then show ?case by simp
next
  case (Cons sk sks)
  let ?k = "keyid_from_sk sk"
  let ?kb2 = "unmark_certified ?k (mark_selected sa (st_keyblock st))"
  have "\<exists>st1 outs. sign_loop sa sks st1 = Some (rc, st')
          \<and> st_keyblock st1 = insert_certs outs sk ?kb2
          \<and> (\<forall>i. answers st1 i) \<and> (\<forall>i. fst (keysigs st1 i) = RC_OK)"
  proof (cases "count_uids_with_flag ?kb2 NODFLG_MARK_A = 0")
    case True
    with Cons.prems(3) have run: "sign_loop sa sks (st\<lparr>st_keyblock := ?kb2\<rparr>) = Some (rc, st')"
      by (simp add: unmark_signed_certified Let_def)
    from True have "insert_certs (keysigs st) sk ?kb2 = ?kb2"
      by (rule pkt_insert_certs_none)
    with run Cons.prems(1,2) show ?thesis
      by (intro exI[of _ "st\<lparr>st_keyblock := ?kb2\<rparr>"] exI[of _ "keysigs st"]) simp
  next
    case False
    let ?st = "st\<lparr>st_keyblock := ?kb2, answers := rest_of (answers st)\<rparr>"
    from False Cons.prems(1)[of 0] Cons.prems(3) obtain rc1 st1 where
      sm: "sign_marked sk ?st = Some (rc1, st1)"
      and rest: "if rc1 \<noteq> RC_OK then (rc, st') = (rc1, st1)
                 else sign_loop sa sks st1 = Some (rc, st')"
      by (auto simp: unmark_signed_certified Let_def split: option.splits if_splits)
    have ok: "\<And>i. fst (keysigs ?st i) = RC_OK" using Cons.prems(2) by simp
    from sign_marked_ok[OF ok sm]
    have "rc1 = RC_OK" "st_keyblock st1 = insert_certs (keysigs ?st) sk (st_keyblock ?st)"
      "answers st1 = answers ?st" "\<forall>i. fst (keysigs st1 i) = RC_OK"
      by simp_all
    with rest Cons.prems(1) show ?thesis
      by (intro exI[of _ st1] exI[of _ "keysigs ?st"]) (simp add: rest_of_def)
  qed
  then obtain st1 outs where run: "sign_loop sa sks st1 = Some (rc, st')"
    and kb1: "st_keyblock st1 = insert_certs outs sk ?kb2"
    and a1: "\<And>i. answers st1 i" and k1: "\<And>i. fst (keysigs st1 i) = RC_OK"
    by blast
  have sel1: "sel_uids (st_keyblock st1) = sel_uids (st_keyblock st)"
    by (simp add: kb1)
  note ih = Cons.IH[OF a1 k1 run]
  show ?case
  proof (cases "k = ?k")
    case True
    have c1: "cert_counts k (st_keyblock st1) = cert_counts_signed sa k (st_keyblock st)"
      unfolding kb1 True by (rule cert_counts_pass_signer)
    from cert_counts_signed_idem[OF c1 sel1] c1 ih True show ?thesis by simp
  next
    case False
    have c1: "cert_counts k (st_keyblock st1) = cert_counts k (st_keyblock st)"
      unfolding kb1 by (rule cert_counts_pass_other[OF False])
    from cert_counts_signed_cong[OF c1 sel1] c1 ih False show ?thesis by simp
  qed
qed

lemma sign_loop_nothing_to_sign:
  assumes "\<And>sk. sk \<in> set sks \<Longrightarrow> nothing_to_sign sa (keyid_from_sk sk) (st_keyblock st)"
  shows "\<exists>kb'. sign_loop sa sks st = Some (RC_OK, st\<lparr>st_keyblock := kb'\<rparr>)
           \<and> map pkt kb' = map pkt (st_keyblock st)
           \<and> sel_uids kb' = sel_uids (st_keyblock st)
           \<and> (sks \<noteq> [] \<longrightarrow> count_uids_with_flag kb' NODFLG_MARK_A = 0)"
  using assms
proof (induction sks arbitrary: st)
  case Nil
  show ?case by (intro exI[of _ "st_keyblock st"]) simp
next
  case (Cons sk sks)
  let ?k = "keyid_from_sk sk"
  let ?kb2 = "unmark_certified ?k (mark_selected sa (st_keyblock st))"
  let ?st = "st\<lparr>st_keyblock := ?kb2\<rparr>"
  from Cons.prems[of sk] have zero: "count_uids_with_flag ?kb2 NODFLG_MARK_A = 0"
    by (simp add: nothing_to_sign_def unmark_signed_certified)
  have pk: "map pkt ?kb2 = map pkt (st_keyblock st)" by simp
  have sel: "sel_uids ?kb2 = sel_uids (st_keyblock st)" by simp
  have "nothing_to_sign sa (keyid_from_sk s) (st_keyblock ?st)" if "s \<in> set sks" for s
  proof -
    from that Cons.prems[of s]
    have "cert_counts_signed sa (keyid_from_sk s) (st_keyblock st)
            = cert_counts (keyid_from_sk s) (st_keyblock st)"
      by (simp add: nothing_to_sign_iff)
    moreover have c: "cert_counts (keyid_from_sk s) ?kb2 = cert_counts (keyid_from_sk s) (st_keyblock st)"
      by (rule cert_counts_pkts[OF pk])
    moreover note cert_counts_signed_cong[OF c sel, of sa]
    ultimately show ?thesis by (simp add: nothing_to_sign_iff)
  qed
  from Cons.IH[of ?st, OF this] obtain kb' where
    run: "sign_loop sa sks ?st = Some (RC_OK, ?st\<lparr>st_keyblock := kb'\<rparr>)"
    and pk': "map pkt kb' = map pkt ?kb2" and sel': "sel_uids kb' = sel_uids ?kb2"
    and z': "sks \<noteq> [] \<longrightarrow> count_uids_with_flag kb' NODFLG_MARK_A = 0"
    by auto
  have z0: "kb' = ?kb2" if "sks = []"
  proof -
    from run that have "?st = ?st\<lparr>st_keyblock := kb'\<rparr>" by simp
    from arg_cong[OF this, of st_keyblock] show ?thesis by simp
  qed
  have "sign_loop sa (sk # sks) st = Some (RC_OK, st\<lparr>st_keyblock := kb'\<rparr>)"
    using zero run by (simp add: unmark_signed_certified Let_def)
  moreover have "count_uids_with_flag kb' NODFLG_MARK_A = 0"
    using z' z0 zero by (cases "sks = []") simp_all
  ultimately show ?case
    using pk' sel' pk sel by (intro exI[of _ kb']) simp
qed


text \<open>
  Claim C5 as stated fails: two runs do not always leave one new certification per
  candidate user id and signer. A candidate user id that already carries a
  certification by the signer's key id gets none (first example: Alice is a
  candidate, is certified once by the signer before the two runs and once after
  them); and when the operator declines the confirmation nothing is signed at all
  (second example).
\<close>

theorem sign_uids_twice_no_new_certification:
  "count_selected_uids ex_certified = 0
   \<and> pkt (ex_certified ! 1) = UserId \<lparr>name = ''Alice''\<rparr>
   \<and> candidate (count_selected_uids ex_certified = 0) (ex_certified ! 1)
   \<and> cert_counts (0xC1, 0xC2) ex_certified = [1]
   \<and> sign_uids ex_sign_env ex_certified [] False =
       Some \<lparr>sr_rc = RC_OK,
              sr_keyblock =
                [ex_node (PublicKey ex_pk) NODFLG_MARK_A,
                 ex_node (UserId \<lparr>name = ''Alice''\<rparr>) 0,
                 ex_node (ex_sig (0xC1, 0xC2)) NODFLG_MARK_A],
              sr_modified = False, sr_trust_cleared = False\<rparr>
   \<and> sign_uids ex_sign_env
        [ex_node (PublicKey ex_pk) NODFLG_MARK_A,
         ex_node (UserId \<lparr>name = ''Alice''\<rparr>) 0,
         ex_node (ex_sig (0xC1, 0xC2)) NODFLG_MARK_A] [] False =
       Some \<lparr>sr_rc = RC_OK,
              sr_keyblock =
                [ex_node (PublicKey ex_pk) NODFLG_MARK_A,
                 ex_node (UserId \<lparr>name = ''Alice''\<rparr>) 0,
                 ex_node (ex_sig (0xC1, 0xC2)) NODFLG_MARK_A],
              sr_modified = False, sr_trust_cleared = False\<rparr>
   \<and> cert_counts (0xC1, 0xC2)
        [ex_node (PublicKey ex_pk) NODFLG_MARK_A,
         ex_node (UserId \<lparr>name = ''Alice''\<rparr>) 0,
         ex_node (ex_sig (0xC1, 0xC2)) NODFLG_MARK_A] = [1]
   \<and> cert_counts (0xC1, 0xC2) ex_two_uids = [0, 0]
   \<and> sign_uids ex_sign_env_no ex_two_uids [] False =
       Some \<lparr>sr_rc = RC_OK, sr_keyblock = map (set_flag NODFLG_MARK_A) ex_two_uids,
              sr_modified = False, sr_trust_cleared = False\<rparr>
   \<and> sign_uids ex_sign_env_no (map (set_flag NODFLG_MARK_A) ex_two_uids) [] False =
       Some \<lparr>sr_rc = RC_OK, sr_keyblock = map (set_flag NODFLG_MARK_A) ex_two_uids,
              sr_modified = False, sr_trust_cleared = False\<rparr>
   \<and> cert_counts (0xC1, 0xC2) (map (set_flag NODFLG_MARK_A) ex_two_uids) = [0, 0]"
  by (simp add: sign_eval ex_certified_def)


text \<open>
  Claim C5, as amended. Let the operator confirm every signer and every signature
  production succeed in the first run. Then, for the key id of each signer, every
  candidate user id that carried no certification by it carries exactly one after
  the run, and every other user id carries as many as before; the certifications
  by any other key id are as before. A second run with the same signer set,
  whatever the answers and the outcomes, returns without error, inserts no packet,
  leaves the modified flag as it was given, does not touch the trust flag, and
  leaves no user id with \<open>MARK_A\<close>.
\<close>

theorem sign_uids_twice:
  assumes yes: "\<And>i. answer_is_yes env i"
    and ok: "\<And>i. fst (keysig_outcomes env i) = RC_OK"
    and sks: "build_sk_list env locusr = (RC_OK, sks)"
    and sks': "build_sk_list env' locusr = (RC_OK, sks)"
    and run: "sign_uids env keyblock locusr modified = Some r"
  shows "(\<forall>k. cert_counts k (sr_keyblock r) =
            (if k \<in> keyid_from_sk ` set sks
             then cert_counts_signed (count_selected_uids keyblock = 0) k keyblock
             else cert_counts k keyblock))
    \<and> (\<exists>r'. sign_uids env' (sr_keyblock r) locusr modified' = Some r'
           \<and> map pkt (sr_keyblock r') = map pkt (sr_keyblock r)
           \<and> sr_rc r' = RC_OK \<and> sr_modified r' = modified' \<and> \<not> sr_trust_cleared r'
           \<and> (sks \<noteq> [] \<longrightarrow> count_uids_with_flag (sr_keyblock r') NODFLG_MARK_A = 0))"
proof -
  let ?sa = "count_selected_uids keyblock = 0"
  let ?st = "\<lparr>st_keyblock = keyblock, ret_modified = modified, upd_trust = False,
               primary_pk = None, answers = answer_is_yes env, keysigs = keysig_outcomes env\<rparr>"
  from run sks obtain rc st' where
    loop: "sign_loop ?sa sks ?st = Some (rc, st')"
    and kb: "sr_keyblock r = st_keyblock st'"
    by (auto simp: sign_uids_def Let_def split: option.splits if_splits)
  have a: "\<And>i. answers ?st i" and o: "\<And>i. fst (keysigs ?st i) = RC_OK"
    using yes ok by simp_all
  have counts: "cert_counts k (sr_keyblock r) =
            (if k \<in> keyid_from_sk ` set sks
             then cert_counts_signed ?sa k keyblock
             else cert_counts k keyblock)" for k
    using sign_loop_counts[OF a o loop, of k] kb by simp
  have sel: "sel_uids (sr_keyblock r) = sel_uids keyblock"
    using sign_loop_sel_uids[OF loop] kb by simp
  then have sa: "(count_selected_uids (sr_keyblock r) = 0) = ?sa"
    by (simp add: count_selected_sel_uids)
  let ?st2 = "\<lparr>st_keyblock = sr_keyblock r, ret_modified = modified', upd_trust = False,
               primary_pk = None, answers = answer_is_yes env', keysigs = keysig_outcomes env'\<rparr>"
  have nts: "nothing_to_sign ?sa (keyid_from_sk sk) (st_keyblock ?st2)" if "sk \<in> set sks" for sk
  proof -
    from that counts[of "keyid_from_sk sk"]
    have c1: "cert_counts (keyid_from_sk sk) (sr_keyblock r)
                = cert_counts_signed ?sa (keyid_from_sk sk) keyblock"
      by simp
    from cert_counts_signed_idem[OF c1 sel] c1 show ?thesis
      by (simp add: nothing_to_sign_iff)
  qed
  from sign_loop_nothing_to_sign[of sks ?sa ?st2, OF nts] obtain kb' where
    loop2: "sign_loop ?sa sks ?st2 = Some (RC_OK, ?st2\<lparr>st_keyblock := kb'\<rparr>)"
    and pk2: "map pkt kb' = map pkt (sr_keyblock r)"
    and z2: "sks \<noteq> [] \<longrightarrow> count_uids_with_flag kb' NODFLG_MARK_A = 0"
    by auto
  let ?r' = "\<lparr>sr_rc = RC_OK, sr_keyblock = kb', sr_modified = modified',
               sr_trust_cleared = False\<rparr>"
  have "sign_uids env' (sr_keyblock r) locusr modified' = Some ?r'"
    using loop2 sks' sa by (simp add: sign_uids_def)
  with pk2 z2 have "\<exists>r'. sign_uids env' (sr_keyblock r) locusr modified' = Some r'
           \<and> map pkt (sr_keyblock r') = map pkt (sr_keyblock r)
           \<and> sr_rc r' = RC_OK \<and> sr_modified r' = modified' \<and> \<not> sr_trust_cleared r'
           \<and> (sks \<noteq> [] \<longrightarrow> count_uids_with_flag (sr_keyblock r') NODFLG_MARK_A = 0)"
    by (intro exI[of _ ?r']) simp
  with counts show ?thesis by blast
qed

theorem sign_uids_twice_witness:
  "(\<forall>i. answer_is_yes ex_sign_env i)
   \<and> (\<forall>i. fst (keysig_outcomes ex_sign_env i) = RC_OK)
   \<and> build_sk_list ex_sign_env [] = (RC_OK, [ex_signer])
   \<and> build_sk_list ex_sign_env_no [] = (RC_OK, [ex_signer])
   \<and> sign_uids ex_sign_env ex_two_uids [] False \<noteq> None
   \<and> cert_counts (0xC1, 0xC2) ex_two_uids = [0, 0]
   \<and> cert_counts (0xC1, 0xC2)
        (sr_keyblock (the (sign_uids ex_sign_env ex_two_uids [] False))) = [1, 1]
   \<and> cert_counts (0x11, 0x22)
        (sr_keyblock (the (sign_uids ex_sign_env ex_two_uids [] False))) = [1, 1]
   \<and> sign_uids ex_sign_env_no
        (sr_keyblock (the (sign_uids ex_sign_env ex_two_uids [] False))) [] False \<noteq> None
   \<and> map pkt (sr_keyblock (the (sign_uids ex_sign_env_no
        (sr_keyblock (the (sign_uids ex_sign_env ex_two_uids [] False))) [] False)))
       = map pkt (sr_keyblock (the (sign_uids ex_sign_env ex_two_uids [] False)))
   \<and> count_uids_with_flag (sr_keyblock (the (sign_uids ex_sign_env_no
        (sr_keyblock (the (sign_uids ex_sign_env ex_two_uids [] False))) [] False)))
        NODFLG_MARK_A = 0"
proof -
  have yes: "\<And>i. answer_is_yes ex_sign_env i"
    and ok: "\<And>i. fst (keysig_outcomes ex_sign_env i) = RC_OK"
    and sks: "build_sk_list ex_sign_env [] = (RC_OK, [ex_signer])"
    and sks': "build_sk_list ex_sign_env_no [] = (RC_OK, [ex_signer])"
    by (simp_all add: ex_sign_env_def ex_sign_env_no_def)
  define r where "r = the (sign_uids ex_sign_env ex_two_uids [] False)"
  have run: "sign_uids ex_sign_env ex_two_uids [] False = Some r"
    unfolding r_def by (simp only: sign_uids_signed_leaves_marks option.sel)
  have c0: "cert_counts (0xC1, 0xC2) ex_two_uids = [0, 0]"
    by (simp add: sign_eval)
  have sa: "count_selected_uids ex_two_uids = 0"
    by (simp add: sign_eval)
  have k: "keyid_from_sk ex_signer = (0xC1, 0xC2)"
    by (simp add: ex_signer_def)
  have s1: "cert_counts_signed True (0xC1, 0xC2) ex_two_uids = [1, 1]"
    by (simp add: sign_eval)
  have s2: "cert_counts (0x11, 0x22) ex_two_uids = [1, 1]"
    by (simp add: sign_eval)
  note tw = sign_uids_twice[OF yes ok sks sks' run, of False]
  from tw have counts: "\<forall>k. cert_counts k (sr_keyblock r) =
            (if k \<in> keyid_from_sk ` set [ex_signer]
             then cert_counts_signed (count_selected_uids ex_two_uids = 0) k ex_two_uids
             else cert_counts k ex_two_uids)"
    by (rule conjunct1)
  from tw have "\<exists>r'. sign_uids ex_sign_env_no (sr_keyblock r) [] False = Some r'
           \<and> map pkt (sr_keyblock r') = map pkt (sr_keyblock r)
           \<and> sr_rc r' = RC_OK \<and> sr_modified r' = False \<and> \<not> sr_trust_cleared r'
           \<and> ([ex_signer] \<noteq> [] \<longrightarrow> count_uids_with_flag (sr_keyblock r') NODFLG_MARK_A = 0)"
    by (rule conjunct2)
  then obtain r' where
    run2: "sign_uids ex_sign_env_no (sr_keyblock r) [] False = Some r'"
    and pk2: "map pkt (sr_keyblock r') = map pkt (sr_keyblock r)"
    and z2: "count_uids_with_flag (sr_keyblock r') NODFLG_MARK_A = 0"
    by blast
  from spec[OF counts, of "(0xC1, 0xC2)"]
  have c1: "cert_counts (0xC1, 0xC2) (sr_keyblock r) = [1, 1]"
    by (simp only: sa k s1 list.set image_insert image_empty insertI1 if_True simp_thms)
  have "(0x11, 0x22) \<noteq> ((0xC1, 0xC2) :: keyid)" by simp
  then have "(0x11, 0x22) \<notin> keyid_from_sk ` set [ex_signer]"
    by (simp add: k)
  with spec[OF counts, of "(0x11, 0x22)"]
  have c2: "cert_counts (0x11, 0x22) (sr_keyblock r) = [1, 1]"
    by (simp only: s2 if_False)
  have r2: "the (sign_uids ex_sign_env_no (sr_keyblock r) [] False) = r'"
    by (simp only: run2 option.sel)
  have n1: "sign_uids ex_sign_env ex_two_uids [] False \<noteq> None"
    by (simp only: run) simp
  have n2: "sign_uids ex_sign_env_no (sr_keyblock r) [] False \<noteq> None"
    by (simp only: run2) simp
  from yes ok sks sks' n1 c0 c1 c2 n2 pk2 z2 show ?thesis
    unfolding r_def[symmetric] r2 by blast
qed

lemma map_fst_uid_view: "map fst (uid_view k kb) = uid_marks kb"
  by (induction kb) (simp_all add: uid_marks_def)


lemma length_uid_view: "length (uid_view k kb) = length (sel_uids kb)"
  by (induction kb) (simp_all add: sel_uids_def)











lemma sign_loop_Cons_cases [consumes 1, case_names skipped signed failed]:
  assumes "sign_loop sa (sk # sks) st = Some (rc, st')"
  obtains
    st1 where "st_keyblock st1
                 = unmark_certified (keyid_from_sk sk) (mark_selected sa (st_keyblock st))"
      "ret_modified st1 = ret_modified st" "upd_trust st1 = upd_trust st"
      "primary_pk st1 = primary_pk st"
      "sign_loop sa sks st1 = Some (rc, st')"
  | st1 where "sign_marked sk
                 (st\<lparr>st_keyblock := unmark_certified (keyid_from_sk sk)
                                       (mark_selected sa (st_keyblock st)),
                     answers := rest_of (answers st)\<rparr>) = Some (RC_OK, st1)"
      "answers st 0" "sign_loop sa sks st1 = Some (rc, st')"
  | "sign_marked sk
       (st\<lparr>st_keyblock := unmark_certified (keyid_from_sk sk)
                             (mark_selected sa (st_keyblock st)),
           answers := rest_of (answers st)\<rparr>) = Some (rc, st')"
      "rc \<noteq> RC_OK" "answers st 0"
proof -
  let ?kb2 = "unmark_certified (keyid_from_sk sk) (mark_selected sa (st_keyblock st))"
  let ?st = "st\<lparr>st_keyblock := ?kb2, answers := rest_of (answers st)\<rparr>"
  show thesis
  proof (cases "count_uids_with_flag ?kb2 NODFLG_MARK_A = 0")
    case True
    with assms have "sign_loop sa sks (st\<lparr>st_keyblock := ?kb2\<rparr>) = Some (rc, st')"
      by (simp add: unmark_signed_certified Let_def)
    then show ?thesis by (intro that(1)[of "st\<lparr>st_keyblock := ?kb2\<rparr>"]) simp_all
  next
    case False
    show ?thesis
    proof (cases "answers st 0")
      case no: False
      with False assms have "sign_loop sa sks ?st = Some (rc, st')"
        by (simp add: unmark_signed_certified Let_def)
      then show ?thesis by (intro that(1)[of ?st]) simp_all
    next
      case yes: True
      with False assms obtain rc1 st1 where
        sm: "sign_marked sk ?st = Some (rc1, st1)"
        and rest: "if rc1 \<noteq> RC_OK then (rc, st') = (rc1, st1)
                   else sign_loop sa sks st1 = Some (rc, st')"
        by (auto simp: unmark_signed_certified Let_def split: option.splits if_splits)
      show ?thesis
      proof (cases "rc1 = RC_OK")
        case True
        with sm rest yes show ?thesis by (intro that(2)[of st1]) simp_all
      next
        case False
        with sm rest yes show ?thesis by (intro that(3)) simp_all
      qed
    qed
  qed
qed


lemma sign_marked_rc_ok:
  assumes "sign_marked sk st = Some (RC_OK, st')"
  shows "st_keyblock st' = insert_certs (keysigs st) sk (st_keyblock st)"
  using assms
proof (induction sk st arbitrary: st' rule: sign_marked.induct)
  case (1 sk st)
  show ?case
  proof (cases "find_marked_uid None 0 (st_keyblock st)")
    case (No_marked_uid ppk)
    with "1.prems" have "st' = st\<lparr>primary_pk := ppk\<rparr>"
      by (simp_all add: sign_marked.simps[of sk st])
    with insert_certs_none[OF find_marked_uid_none[OF No_marked_uid]]
    show ?thesis by simp
  next
    case (Marked_uid i ppk)
    with "1.prems" obtain pk where pk: "ppk = Some pk"
      by (cases ppk) (simp_all add: sign_marked.simps[of sk st])
    let ?kb = "st_keyblock st"
    let ?kb1 = "?kb[i := clear_flag NODFLG_MARK_A (?kb ! i)]"
    let ?sg = "snd (make_keysig_packet (keysigs st 0) sk 0x10)"
    let ?st1 = "st\<lparr>st_keyblock := ?kb1, primary_pk := ppk, keysigs := rest_of (keysigs st)\<rparr>"
    let ?st2 = "?st1\<lparr>st_keyblock := insert_kbnode ?kb1 i (new_kbnode (Signature ?sg))
                                        (Some PKT_SIGNATURE),
                      ret_modified := True, upd_trust := True\<rparr>"
    have ok: "fst (make_keysig_packet (keysigs st 0) sk 0x10) = RC_OK"
    proof (rule ccontr)
      assume "fst (make_keysig_packet (keysigs st 0) sk 0x10) \<noteq> RC_OK"
      with "1.prems" Marked_uid pk show False
        by (simp add: sign_marked.simps[of sk st] case_prod_beta Let_def)
    qed
    have rec: "sign_marked sk ?st2 = Some (RC_OK, st')"
      using "1.prems" Marked_uid pk ok
      by (simp add: sign_marked.simps[of sk st] case_prod_beta Let_def)
    have mk: "make_keysig_packet (keysigs st 0) sk 0x10 = (RC_OK, ?sg)"
      using ok by (simp add: prod_eq_iff)
    from "1.IH"[OF Marked_uid pk refl refl mk[symmetric] refl _ rec]
    have ih: "st_keyblock st' = insert_certs (rest_of (keysigs st)) sk
                           (insert_kbnode ?kb1 i (new_kbnode (Signature ?sg))
                              (Some PKT_SIGNATURE))"
      by simp
    from find_marked_uid_step[OF Marked_uid] obtain pre u sigs post where
      kb: "?kb = pre @ u # sigs @ post" and i: "i = length pre"
      and u: "pkttype (pkt u) = PKT_USER_ID" "has_flag u NODFLG_MARK_A"
      and pre: "\<forall>n \<in> set pre. \<not> (pkttype (pkt n) = PKT_USER_ID \<and> has_flag n NODFLG_MARK_A)"
      and sigs: "\<forall>n \<in> set sigs. pkttype (pkt n) = PKT_SIGNATURE"
      and post: "post = dropWhile (\<lambda>n. pkttype (pkt n) = PKT_SIGNATURE) (sigs @ post)"
      and ins: "\<And>node. insert_kbnode ?kb1 i node (Some PKT_SIGNATURE)
                        = pre @ clear_flag NODFLG_MARK_A u # sigs @ node # post"
      by blast
    have "\<forall>n \<in> set (pre @ clear_flag NODFLG_MARK_A u # sigs @ [new_kbnode (Signature ?sg)]).
            \<not> (pkttype (pkt n) = PKT_USER_ID \<and> has_flag n NODFLG_MARK_A)"
      using pre sigs by (auto simp: new_kbnode_def)
    from insert_certs_unmarked[OF this, of "rest_of (keysigs st)" sk post]
    have "insert_certs (rest_of (keysigs st)) sk
            (pre @ clear_flag NODFLG_MARK_A u # sigs @ new_kbnode (Signature ?sg) # post)
          = pre @ clear_flag NODFLG_MARK_A u # sigs @ new_kbnode (Signature ?sg)
              # insert_certs (rest_of (keysigs st)) sk post"
      by simp
    moreover have "insert_certs (keysigs st) sk (pre @ u # sigs @ post)
          = pre @ clear_flag NODFLG_MARK_A u # sigs @ new_kbnode (Signature ?sg)
              # insert_certs (rest_of (keysigs st)) sk post"
      using insert_certs_unmarked[OF pre, of "keysigs st" sk "u # sigs @ post"]
        insert_certs_marked[OF u sigs post, of "keysigs st" sk]
      by simp
    ultimately show ?thesis
      using ih ins[of "new_kbnode (Signature ?sg)"] kb by simp
  qed
qed

lemma set_clear_flag_word: "(x AND NOT f) OR f = x OR (f :: u32)"
  by (rule bit_eqI) (auto simp: bit_simps)

lemma clear_set_flag_word: "(x OR f) AND NOT f = x AND NOT (f :: u32)"
  by (rule bit_eqI) (auto simp: bit_simps)

lemma set_clear_flag: "set_flag f (clear_flag f n) = set_flag f n"
  by (simp add: set_flag_def clear_flag_def set_clear_flag_word)

lemma clear_set_flag: "clear_flag f (set_flag f n) = clear_flag f n"
  by (simp add: set_flag_def clear_flag_def clear_set_flag_word)

lemma set_set_flag: "set_flag f (set_flag f n) = set_flag f n"
  by (simp add: set_flag_def)

lemma clear_clear_flag: "clear_flag f (clear_flag f n) = clear_flag f n"
  by (simp add: clear_flag_def)

lemma candidate_flags [simp]:
  "candidate sa (set_flag NODFLG_MARK_A n) = candidate sa n"
  "candidate sa (clear_flag NODFLG_MARK_A n) = candidate sa n"
  by (simp_all add: candidate_def)

lemma mark_selected_again [simp]:
  "mark_selected sa (unmark_certified k (mark_selected sa' kb)) = mark_selected sa kb"
proof (induction kb)
  case Nil
  show ?case by simp
next
  case (Cons n kb)
  then show ?case
    by (simp add: mark_selected_Cons set_clear_flag clear_set_flag set_set_flag
        clear_clear_flag)
qed


lemma uid_marks_zero:
  "count_uids_with_flag kb NODFLG_MARK_A = 0
     \<longleftrightarrow> uid_marks kb = replicate (length (sel_uids kb)) False"
proof (induction kb)
  case Nil
  show ?case by (simp add: uid_marks_def sel_uids_def)
next
  case (Cons n kb)
  have "0 \<le> count_uids_with_flag kb NODFLG_MARK_A" by (rule count_uids_with_flag_nonneg)
  with Cons show ?case by (auto simp: uid_marks_def sel_uids_def)
qed

lemma sign_loop_marks:
  assumes "sign_loop sa sks st = Some (RC_OK, st')" and "sks \<noteq> []"
  shows "uid_marks (st_keyblock st')
           = uid_marks (unmark_certified (keyid_from_sk (last sks))
                          (mark_selected sa (st_keyblock st')))"
  using assms
proof (induction sks arbitrary: st)
  case Nil
  then show ?case by simp
next
  case (Cons sk sks)
  let ?k = "keyid_from_sk sk"
  let ?kb2 = "unmark_certified ?k (mark_selected sa (st_keyblock st))"
  have "\<exists>st1. sign_loop sa sks st1 = Some (RC_OK, st')
          \<and> uid_marks (st_keyblock st1)
              = uid_marks (unmark_certified ?k (mark_selected sa (st_keyblock st1)))"
    using Cons.prems(1)
  proof (cases rule: sign_loop_Cons_cases)
    case (skipped st1)
    have "unmark_certified ?k (mark_selected sa (st_keyblock st1)) = st_keyblock st1"
      unfolding skipped(1) by simp
    with skipped(5) show ?thesis by (intro exI[of _ st1]) simp
  next
    case (signed st1)
    let ?outs = "keysigs st"
    from sign_marked_rc_ok[OF signed(1)]
    have kb1: "st_keyblock st1 = insert_certs ?outs sk ?kb2" by simp
    have z1: "count_uids_with_flag (st_keyblock st1) NODFLG_MARK_A = 0"
      unfolding kb1 by (rule count_insert_certs)
    have c1: "cert_counts ?k (st_keyblock st1) = cert_counts_signed sa ?k (st_keyblock st)"
      unfolding kb1 by (rule cert_counts_pass_signer)
    have s1: "sel_uids (st_keyblock st1) = sel_uids (st_keyblock st)"
      unfolding kb1 by simp
    from cert_counts_signed_idem[OF c1 s1] c1
    have "nothing_to_sign sa ?k (st_keyblock st1)"
      by (simp add: nothing_to_sign_iff)
    then have z2: "count_uids_with_flag
                     (unmark_certified ?k (mark_selected sa (st_keyblock st1))) NODFLG_MARK_A = 0"
      by (simp add: nothing_to_sign_def unmark_signed_certified)
    from z1 z2 have "uid_marks (st_keyblock st1)
              = uid_marks (unmark_certified ?k (mark_selected sa (st_keyblock st1)))"
      by (simp add: uid_marks_zero)
    with signed(3) show ?thesis by (intro exI[of _ st1]) simp
  next
    case failed
    then show ?thesis by simp
  qed
  then obtain st1 where run: "sign_loop sa sks st1 = Some (RC_OK, st')"
    and m1: "uid_marks (st_keyblock st1)
              = uid_marks (unmark_certified ?k (mark_selected sa (st_keyblock st1)))"
    by blast
  show ?case
  proof (cases "sks = []")
    case True
    with run m1 show ?thesis by simp
  next
    case False
    with Cons.IH[OF run] show ?thesis by simp
  qed
qed

lemma uid_marks_unmark_mark:
  "uid_marks (unmark_certified k (mark_selected sa kb))
     = map (\<lambda>(s, c). (sa \<or> snd s) \<and> c = 0) (zip (sel_uids kb) (cert_counts k kb))"
proof (induction kb)
  case Nil
  show ?case by (simp add: uid_marks_def sel_uids_def)
next
  case (Cons n kb)
  have h: "has_cert_by k (mark_selected sa kb) = (count_certs k kb \<noteq> 0)"
    using count_certs_pkts[of "mark_selected sa kb" kb k]
    by (simp add: has_cert_by_count)
  show ?case
  proof (cases "candidate sa n")
    case True
    with Cons h show ?thesis
      by (auto simp: mark_selected_Cons uid_marks_def sel_uids_def candidate_def)
  next
    case False
    with Cons h show ?thesis
      by (auto simp: mark_selected_Cons uid_marks_def sel_uids_def candidate_def)
  qed
qed

lemma sign_uids_loop:
  assumes "sign_uids env keyblock locusr modified = Some r"
    and "build_sk_list env locusr = (RC_OK, sks)"
  shows "\<exists>rc st'.
    sign_loop (count_selected_uids keyblock = 0) sks
      \<lparr>st_keyblock = keyblock, ret_modified = modified, upd_trust = False,
       primary_pk = None, answers = answer_is_yes env, keysigs = keysig_outcomes env\<rparr>
      = Some (rc, st')
    \<and> sr_keyblock r = st_keyblock st'
    \<and> (rc = RC_OK \<longleftrightarrow> sr_rc r = RC_OK \<or> sr_trust_cleared r)"
  using assms
  by (auto simp: sign_uids_def Let_def split: option.splits if_splits)



lemma ex_two_signers:
  "sign_uids ex_sign_env_two ex_two_uids [] False =
     Some \<lparr>sr_rc = RC_OK,
            sr_keyblock =
              [ex_node (PublicKey ex_pk) NODFLG_MARK_A,
               ex_node (UserId \<lparr>name = ''Alice''\<rparr>) 0,
               ex_node (ex_sig (0x11, 0x22)) NODFLG_MARK_A,
               new_kbnode (Signature \<lparr>sig_keyid = (0xD1, 0xD2), sig_class = 0x10,
                                       sig_timestamp = 0x1000\<rparr>),
               ex_node (UserId \<lparr>name = ''Bob''\<rparr>) 0,
               ex_node (ex_sig (0x11, 0x22)) NODFLG_MARK_A,
               new_kbnode (Signature \<lparr>sig_keyid = (0xD1, 0xD2), sig_class = 0x10,
                                       sig_timestamp = 0x1000\<rparr>)],
            sr_modified = True, sr_trust_cleared = True\<rparr>"
  by (simp add: sign_eval ex_sign_env_two_def ex_signer2_def)

lemma ex_nobody:
  "sign_uids ex_sign_env_nobody ex_two_uids [] False =
     Some \<lparr>sr_rc = RC_OK, sr_keyblock = ex_two_uids, sr_modified = False,
            sr_trust_cleared = False\<rparr>"
  by (simp add: sign_uids_def ex_sign_env_nobody_def ex_sign_env_def)



text \<open>
  Claim C4 as stated fails: \<^verbatim>\<open>sign_uids\<close> has no code that clears the marks it
  has set. When the operator declines the confirmation the function goes on to the
  next signer with \<^verbatim>\<open>continue\<close>, and the candidates keep \<open>MARK_A\<close>: here both
  user ids (and every other node) carry it on return. And when a signature
  production fails the function leaves through \<^verbatim>\<open>leave\<close> with the marks of the
  user ids that it has not come to: here the first production fails, and Bob
  carries \<open>MARK_A\<close> on return.
\<close>

theorem sign_uids_declined_leaves_marks:
  "sign_uids ex_sign_env_no ex_two_uids [] False =
     Some \<lparr>sr_rc = RC_OK, sr_keyblock = map (set_flag NODFLG_MARK_A) ex_two_uids,
            sr_modified = False, sr_trust_cleared = False\<rparr>
   \<and> pkt (map (set_flag NODFLG_MARK_A) ex_two_uids ! 1) = UserId \<lparr>name = ''Alice''\<rparr>
   \<and> has_flag (map (set_flag NODFLG_MARK_A) ex_two_uids ! 1) NODFLG_MARK_A
   \<and> list_all (\<lambda>n. has_flag n NODFLG_MARK_A) (map (set_flag NODFLG_MARK_A) ex_two_uids)
   \<and> sign_uids ex_sign_env_fail_first ex_two_uids [] False =
       Some \<lparr>sr_rc = G10ERR_OTHER 1,
              sr_keyblock =
                [ex_node (PublicKey ex_pk) NODFLG_MARK_A,
                 ex_node (UserId \<lparr>name = ''Alice''\<rparr>) 0,
                 ex_node (ex_sig (0x11, 0x22)) NODFLG_MARK_A,
                 ex_node (UserId \<lparr>name = ''Bob''\<rparr>) NODFLG_MARK_A,
                 ex_node (ex_sig (0x11, 0x22)) NODFLG_MARK_A],
              sr_modified = False, sr_trust_cleared = False\<rparr>
   \<and> has_flag (ex_node (UserId \<lparr>name = ''Bob''\<rparr>) NODFLG_MARK_A) NODFLG_MARK_A"
  by (simp add: sign_eval ex_sign_env_fail_first_def)

text \<open>
  Claim C4, as amended. With no signer, or when \<^verbatim>\<open>build_sk_list\<close> fails,
  \<^verbatim>\<open>sign_uids\<close> returns the keyblock as it got it. Otherwise, when it returns
  without a failed signature production, a user id carries \<open>MARK_A\<close> exactly if it
  is a candidate and has no certification by the key id of the last signer: the
  marks are those of the last signer's pass, whatever was answered for the signers
  before. So no user id carries \<open>MARK_A\<close> exactly if the last signer has nothing
  left to sign, which is so unless the operator has declined the confirmation for
  that signer; in particular none carries it when every confirmation is given and
  every signature is made. Nodes of other kinds may carry \<open>MARK_A\<close> in every case.
\<close>

theorem sign_uids_marks_on_return:
  assumes run: "sign_uids env keyblock locusr modified = Some r"
    and built: "build_sk_list env locusr = (rc0, sks)"
  shows "(rc0 \<noteq> RC_OK \<or> sks = [] \<longrightarrow> sr_keyblock r = keyblock)
    \<and> (rc0 = RC_OK \<and> sks \<noteq> [] \<and> (sr_rc r = RC_OK \<or> sr_trust_cleared r) \<longrightarrow>
         uid_marks (sr_keyblock r)
           = map (\<lambda>(s, c). (count_selected_uids keyblock = 0 \<or> snd s) \<and> c = 0)
               (zip (sel_uids keyblock) (cert_counts (keyid_from_sk (last sks)) (sr_keyblock r)))
         \<and> (count_uids_with_flag (sr_keyblock r) NODFLG_MARK_A = 0 \<longleftrightarrow>
              nothing_to_sign (count_selected_uids keyblock = 0) (keyid_from_sk (last sks))
                (sr_keyblock r)))
    \<and> (rc0 = RC_OK \<and> sks \<noteq> [] \<and> (\<forall>i. answer_is_yes env i)
          \<and> (\<forall>i. fst (keysig_outcomes env i) = RC_OK) \<longrightarrow>
         count_uids_with_flag (sr_keyblock r) NODFLG_MARK_A = 0)"
proof (cases "rc0 = RC_OK")
  case False
  with run built have "sr_keyblock r = keyblock"
    by (auto simp: sign_uids_def)
  with False show ?thesis by simp
next
  case True
  with built have sks: "build_sk_list env locusr = (RC_OK, sks)" by simp
  let ?sa = "count_selected_uids keyblock = 0"
  let ?st = "\<lparr>st_keyblock = keyblock, ret_modified = modified, upd_trust = False,
               primary_pk = None, answers = answer_is_yes env, keysigs = keysig_outcomes env\<rparr>"
  let ?k = "keyid_from_sk (last sks)"
  from sign_uids_loop[OF run sks] obtain rc st' where
    loop: "sign_loop ?sa sks ?st = Some (rc, st')"
    and kb: "sr_keyblock r = st_keyblock st'"
    and rc: "rc = RC_OK \<longleftrightarrow> sr_rc r = RC_OK \<or> sr_trust_cleared r"
    by blast
  have sel: "sel_uids (sr_keyblock r) = sel_uids keyblock"
    using sign_loop_sel_uids[OF loop] kb by simp
  have none: "sr_keyblock r = keyblock" if "sks = []"
    using loop kb that by auto
  have marks: "uid_marks (sr_keyblock r)
           = map (\<lambda>(s, c). (?sa \<or> snd s) \<and> c = 0)
               (zip (sel_uids keyblock) (cert_counts ?k (sr_keyblock r)))"
    and zero: "count_uids_with_flag (sr_keyblock r) NODFLG_MARK_A = 0 \<longleftrightarrow>
                 nothing_to_sign ?sa ?k (sr_keyblock r)"
    if ne: "sks \<noteq> []" and okay: "sr_rc r = RC_OK \<or> sr_trust_cleared r"
  proof -
    from okay rc loop have "sign_loop ?sa sks ?st = Some (RC_OK, st')" by simp
    from sign_loop_marks[OF this ne] kb
    have m: "uid_marks (sr_keyblock r)
               = uid_marks (unmark_certified ?k (mark_selected ?sa (sr_keyblock r)))"
      by simp
    then show "uid_marks (sr_keyblock r)
           = map (\<lambda>(s, c). (?sa \<or> snd s) \<and> c = 0)
               (zip (sel_uids keyblock) (cert_counts ?k (sr_keyblock r)))"
      by (simp add: uid_marks_unmark_mark sel)
    have "sel_uids (unmark_certified ?k (mark_selected ?sa (sr_keyblock r)))
            = sel_uids (sr_keyblock r)"
      by simp
    with m show "count_uids_with_flag (sr_keyblock r) NODFLG_MARK_A = 0 \<longleftrightarrow>
                 nothing_to_sign ?sa ?k (sr_keyblock r)"
      by (simp add: uid_marks_zero nothing_to_sign_def unmark_signed_certified)
  qed
  have all: "count_uids_with_flag (sr_keyblock r) NODFLG_MARK_A = 0"
    if ne: "sks \<noteq> []" and yes: "\<forall>i. answer_is_yes env i"
      and ok: "\<forall>i. fst (keysig_outcomes env i) = RC_OK"
  proof -
    have a: "\<And>i. answers ?st i" and o: "\<And>i. fst (keysigs ?st i) = RC_OK"
      using yes ok by simp_all
    from sign_loop_unmarks[OF a o loop] ne kb show ?thesis by simp
  qed
  from True none marks zero all show ?thesis by blast
qed


theorem sign_uids_marks_on_return_witness:
  "sign_uids ex_sign_env_two ex_two_uids [] False \<noteq> None
   \<and> build_sk_list ex_sign_env_two [] = (RC_OK, [ex_signer, ex_signer2])
   \<and> \<not> answer_is_yes ex_sign_env_two 0
   \<and> sr_rc (the (sign_uids ex_sign_env_two ex_two_uids [] False)) = RC_OK
   \<and> uid_marks (sr_keyblock (the (sign_uids ex_sign_env_two ex_two_uids [] False)))
        = [False, False]
   \<and> count_uids_with_flag (sr_keyblock (the (sign_uids ex_sign_env_two ex_two_uids [] False)))
        NODFLG_MARK_A = 0
   \<and> sign_uids ex_sign_env_no ex_two_uids [] False \<noteq> None
   \<and> build_sk_list ex_sign_env_no [] = (RC_OK, [ex_signer])
   \<and> sr_rc (the (sign_uids ex_sign_env_no ex_two_uids [] False)) = RC_OK
   \<and> uid_marks (sr_keyblock (the (sign_uids ex_sign_env_no ex_two_uids [] False)))
        = [True, True]
   \<and> sign_uids ex_sign_env_nobody ex_two_uids [] False \<noteq> None
   \<and> build_sk_list ex_sign_env_nobody [] = (RC_OK, [])
   \<and> sr_keyblock (the (sign_uids ex_sign_env_nobody ex_two_uids [] False)) = ex_two_uids
   \<and> sign_uids ex_sign_env ex_two_uids [] False \<noteq> None
   \<and> build_sk_list ex_sign_env [] = (RC_OK, [ex_signer])
   \<and> (\<forall>i. answer_is_yes ex_sign_env i)
   \<and> (\<forall>i. fst (keysig_outcomes ex_sign_env i) = RC_OK)
   \<and> count_uids_with_flag (sr_keyblock (the (sign_uids ex_sign_env ex_two_uids [] False)))
        NODFLG_MARK_A = 0"
proof -
  note ev = ex_two_uids_def ex_node_def ex_sig_def count_selected_uids_def
    has_flag_def NODFLG_SELUID_def NODFLG_MARK_A_def sel_uids_def
    is_uid_cert_def signed_by_def new_kbnode_def
  have yes: "\<forall>i. answer_is_yes ex_sign_env i"
    and ok: "\<forall>i. fst (keysig_outcomes ex_sign_env i) = RC_OK"
    and sks: "build_sk_list ex_sign_env [] = (RC_OK, [ex_signer])"
    and sks1: "build_sk_list ex_sign_env_no [] = (RC_OK, [ex_signer])"
    and sks2: "build_sk_list ex_sign_env_two [] = (RC_OK, [ex_signer, ex_signer2])"
    and sks0: "build_sk_list ex_sign_env_nobody [] = (RC_OK, [])"
    and no0: "\<not> answer_is_yes ex_sign_env_two 0"
    by (simp_all add: ex_sign_env_def ex_sign_env_no_def ex_sign_env_two_def
        ex_sign_env_nobody_def)
  have k: "keyid_from_sk ex_signer = (0xC1, 0xC2)" "keyid_from_sk ex_signer2 = (0xD1, 0xD2)"
    by (simp_all add: ex_signer_def ex_signer2_def)
  have c0: "count_selected_uids ex_two_uids = 0"
    and su: "sel_uids ex_two_uids
        = [(UserId \<lparr>name = ''Alice''\<rparr>, False), (UserId \<lparr>name = ''Bob''\<rparr>, False)]"
    by (simp_all add: ev)
  define r where "r = the (sign_uids ex_sign_env ex_two_uids [] False)"
  have run: "sign_uids ex_sign_env ex_two_uids [] False = Some r"
    unfolding r_def by (simp only: sign_uids_signed_leaves_marks option.sel)
  define r1 where "r1 = the (sign_uids ex_sign_env_no ex_two_uids [] False)"
  have run1': "sign_uids ex_sign_env_no ex_two_uids [] False =
     Some \<lparr>sr_rc = RC_OK, sr_keyblock = map (set_flag NODFLG_MARK_A) ex_two_uids,
            sr_modified = False, sr_trust_cleared = False\<rparr>"
    by (simp add: sign_eval)
  have run1: "sign_uids ex_sign_env_no ex_two_uids [] False = Some r1"
    unfolding r1_def by (simp only: run1' option.sel)
  define r2 where "r2 = the (sign_uids ex_sign_env_two ex_two_uids [] False)"
  have run2: "sign_uids ex_sign_env_two ex_two_uids [] False = Some r2"
    unfolding r2_def by (simp only: ex_two_signers option.sel)
  define r0 where "r0 = the (sign_uids ex_sign_env_nobody ex_two_uids [] False)"
  have run0: "sign_uids ex_sign_env_nobody ex_two_uids [] False = Some r0"
    unfolding r0_def by (simp only: ex_nobody option.sel)
  have rc1: "sr_rc r1 = RC_OK"
    unfolding r1_def run1' option.sel by simp
  have rc2: "sr_rc r2 = RC_OK"
    and cc2: "cert_counts (0xD1, 0xD2) (sr_keyblock r2) = [1, 1]"
    unfolding r2_def ex_two_signers option.sel by (simp_all add: ev)
  have cc1: "cert_counts (0xC1, 0xC2) (sr_keyblock r1) = [0, 0]"
    unfolding r1_def run1' option.sel by (simp add: ev set_flag_def)
  note t = sign_uids_marks_on_return[OF run sks]
  note t1 = sign_uids_marks_on_return[OF run1 sks1]
  note t2 = sign_uids_marks_on_return[OF run2 sks2]
  note t0 = sign_uids_marks_on_return[OF run0 sks0]
  from t0 have k0: "sr_keyblock r0 = ex_two_uids" by simp
  from t yes ok have z: "count_uids_with_flag (sr_keyblock r) NODFLG_MARK_A = 0"
    by simp
  from t2 rc2 have "uid_marks (sr_keyblock r2)
           = map (\<lambda>(s, c). (count_selected_uids ex_two_uids = 0 \<or> snd s) \<and> c = 0)
               (zip (sel_uids ex_two_uids)
                  (cert_counts (keyid_from_sk (last [ex_signer, ex_signer2])) (sr_keyblock r2)))
         \<and> (count_uids_with_flag (sr_keyblock r2) NODFLG_MARK_A = 0 \<longleftrightarrow>
              nothing_to_sign (count_selected_uids ex_two_uids = 0)
                (keyid_from_sk (last [ex_signer, ex_signer2])) (sr_keyblock r2))"
    by simp
  then have m2: "uid_marks (sr_keyblock r2) = [False, False]"
    by (simp add: k cc2 su c0)
  have "sel_uids (sr_keyblock r2) = sel_uids ex_two_uids"
    using t2 sign_uids_loop[OF run2 sks2] sign_loop_sel_uids by fastforce
  with m2 su have z2: "count_uids_with_flag (sr_keyblock r2) NODFLG_MARK_A = 0"
    by (simp add: uid_marks_zero)
  from t1 rc1 have "uid_marks (sr_keyblock r1)
           = map (\<lambda>(s, c). (count_selected_uids ex_two_uids = 0 \<or> snd s) \<and> c = 0)
               (zip (sel_uids ex_two_uids)
                  (cert_counts (keyid_from_sk (last [ex_signer])) (sr_keyblock r1)))"
    by simp
  then have m1: "uid_marks (sr_keyblock r1) = [True, True]"
    by (simp add: k cc1 su c0)
  have e: "sign_uids ex_sign_env ex_two_uids [] False \<noteq> None"
    and e1: "sign_uids ex_sign_env_no ex_two_uids [] False \<noteq> None"
    and e2: "sign_uids ex_sign_env_two ex_two_uids [] False \<noteq> None"
    and e0: "sign_uids ex_sign_env_nobody ex_two_uids [] False \<noteq> None"
    by (simp_all only: run run1 run2 run0 option.distinct simp_thms)
  from e2 sks2 no0 rc2 m2 z2 e1 sks1 rc1 m1 e0 sks0 k0 e sks yes ok z show ?thesis
    unfolding r_def[symmetric] r1_def[symmetric] r2_def[symmetric] r0_def[symmetric]
    by blast
qed


end
